theory Spec2Isabelle
  imports Complex_Main "HOL-Library.Sublist" "HOL-Library.Multiset" "HOL-Library.Log_Nat"
begin

section \<open>JavaScript primitives used by the engines\<close>

text \<open>
  Strings are byte lists; the case mappings and the whitespace class are the ASCII ones, which
  is what the keywords of the engines and the examples need. The general results below never
  look into them: they hold for any case mapping and any whitespace class.
\<close>

definition truthy :: "string option \<Rightarrow> bool" where
  \<comment> \<open>an optional string field used as a condition: present and non-empty\<close>
  "truthy s = (case s of None \<Rightarrow> False | Some v \<Rightarrow> v \<noteq> [])"

definition orElse :: "string option \<Rightarrow> string \<Rightarrow> string" where
  \<comment> \<open>\<open>s || d\<close> on an optional string\<close>
  "orElse s d = (case s of None \<Rightarrow> d | Some v \<Rightarrow> (if v = [] then d else v))"

definition lowerChar :: "char \<Rightarrow> char" where
  "lowerChar c =
     (case map_of (zip ''ABCDEFGHIJKLMNOPQRSTUVWXYZ'' ''abcdefghijklmnopqrstuvwxyz'') c of
        None \<Rightarrow> c
      | Some l \<Rightarrow> l)"

definition upperChar :: "char \<Rightarrow> char" where
  "upperChar c =
     (case map_of (zip ''abcdefghijklmnopqrstuvwxyz'' ''ABCDEFGHIJKLMNOPQRSTUVWXYZ'') c of
        None \<Rightarrow> c
      | Some u \<Rightarrow> u)"

definition toLowerCase :: "string \<Rightarrow> string" where
  "toLowerCase s = map lowerChar s"

definition toUpperCase :: "string \<Rightarrow> string" where
  "toUpperCase s = map upperChar s"

definition isSpace :: "char \<Rightarrow> bool" where
  \<comment> \<open>space, tab, line feed, vertical tab, form feed, carriage return\<close>
  "isSpace c = (c \<in> set [CHR '' '', CHR 0x09, CHR 0x0A, CHR 0x0B, CHR 0x0C, CHR 0x0D])"

definition trim :: "string \<Rightarrow> string" where
  "trim s = rev (dropWhile isSpace (rev (dropWhile isSpace s)))"

fun str_includes :: "string \<Rightarrow> string \<Rightarrow> bool" where
  \<comment> \<open>\<open>hay.includes(needle)\<close>\<close>
  "str_includes [] needle = (needle = [])"
| "str_includes (c # cs) needle = (prefix needle (c # cs) \<or> str_includes cs needle)"

definition substring04 :: "string \<Rightarrow> string" where
  \<comment> \<open>\<open>s.substring(0, 4)\<close>\<close>
  "substring04 s = take 4 s"

fun split_on :: "char \<Rightarrow> string \<Rightarrow> string list" where
  \<comment> \<open>\<open>s.split(d)\<close> for a one-character separator\<close>
  "split_on d [] = [Nil]"
| "split_on d (c # cs) =
     (if c = d then [] # split_on d cs
      else (case split_on d cs of [] \<Rightarrow> [c # Nil] | p # ps \<Rightarrow> (c # p) # ps))"

definition hexTable :: "(char \<times> int) list" where
  "hexTable = zip ''0123456789abcdefABCDEF'' ([0, 1, 2, 3, 4, 5, 6, 7, 8, 9, 10, 11, 12, 13, 14, 15] @ [10, 11, 12, 13, 14, 15])"

definition isDigit :: "char \<Rightarrow> bool" where
  "isDigit c = (c \<in> set ''0123456789'')"

definition isHexDigit :: "char \<Rightarrow> bool" where
  "isHexDigit c = (map_of hexTable c \<noteq> None)"

definition hexVal :: "char \<Rightarrow> int" where
  "hexVal c = (case map_of hexTable c of None \<Rightarrow> 0 | Some v \<Rightarrow> v)"

definition digitVal :: "char \<Rightarrow> int" where
  \<comment> \<open>the value of a decimal digit\<close>
  "digitVal c = hexVal c"

definition digitsValue :: "int \<Rightarrow> (char \<Rightarrow> int) \<Rightarrow> string \<Rightarrow> int" where
  "digitsValue radix val ds = foldl (\<lambda>a c. radix * a + val c) 0 ds"

definition parseInt :: "string \<Rightarrow> int option" where
  \<comment> \<open>\<open>parseInt(s)\<close> with no radix: leading blanks, a sign, a \<open>0x\<close> prefix, then the
      longest run of digits; \<open>None\<close> is \<open>NaN\<close>\<close>
  "parseInt s =
     (let t = dropWhile isSpace s;
          neg = (case t of [] \<Rightarrow> False | c # _ \<Rightarrow> c = CHR ''-'');
          u = (case t of [] \<Rightarrow> [] | c # r \<Rightarrow> if c = CHR ''-'' \<or> c = CHR ''+'' then r else t);
          hex = (prefix ''0x'' u \<or> prefix ''0X'' u);
          ds = (if hex then takeWhile isHexDigit (drop 2 u) else takeWhile isDigit u);
          v = (if hex then digitsValue 16 hexVal ds else digitsValue 10 digitVal ds)
      in if ds = [] then None else Some (if neg then - v else v))"

subsection \<open>Numbers\<close>

text \<open>
  A JavaScript number is a double. A finite double is the rational it denotes (the two zeros are
  one value: nothing in the engines tells them apart), and there are the two infinities and
  \<open>NaN\<close>. An arithmetic operation gives the exact result rounded to the nearest double, a tie
  going to the even significand. \<open>roundDouble\<close> is that rounding on the rationals: significands
  of 53 bits, the unit in the last place never below \<open>2 powi - 1074\<close>, and no upper bound;
  \<open>toDouble\<close> adds the overflow to an infinity.
\<close>

definition roundEven :: "rat \<Rightarrow> int" where
  \<comment> \<open>the nearest integer, a half going to the even neighbour\<close>
  "roundEven y =
     (let f = \<lfloor>y\<rfloor>; r = y - of_int f
      in if r < 1 / 2 then f else if 1 / 2 < r then f + 1 else if even f then f else f + 1)"

definition binExp :: "rat \<Rightarrow> int" where
  \<comment> \<open>for \<open>x > 0\<close>, the exponent \<open>e\<close> with \<open>2 powi (e + 52) \<le> x < 2 powi (e + 53)\<close>\<close>
  "binExp x =
     (case quotient_of x of (p, q) \<Rightarrow>
        (let e0 = bitlen p - bitlen q - 53
         in if 2 powi (e0 + 53) \<le> x then e0 + 1 else e0))"

definition ulpExp :: "rat \<Rightarrow> int" where
  \<comment> \<open>the exponent of the unit in the last place of the doubles around \<open>x > 0\<close>\<close>
  "ulpExp x = max (- 1074) (binExp x)"

definition roundDouble :: "rat \<Rightarrow> rat" where
  "roundDouble x =
     (if x = 0 then 0
      else sgn x * of_int (roundEven (\<bar>x\<bar> / 2 powi ulpExp \<bar>x\<bar>)) * 2 powi ulpExp \<bar>x\<bar>)"

datatype jsnum = Num rat | PosInf | NegInf | NaN

definition toDouble :: "rat \<Rightarrow> jsnum" where
  "toDouble x =
     (let r = roundDouble x
      in if of_int (2 ^ 1024) \<le> r then PosInf
         else if r \<le> - of_int (2 ^ 1024) then NegInf
         else Num r)"

definition signOf :: "jsnum \<Rightarrow> int" where
  "signOf x =
     (case x of
        Num a \<Rightarrow> (if 0 < a then 1 else if a < 0 then - 1 else 0)
      | PosInf \<Rightarrow> 1
      | NegInf \<Rightarrow> - 1
      | NaN \<Rightarrow> 0)"

definition infOf :: "int \<Rightarrow> jsnum" where
  \<comment> \<open>the infinity of the given sign; an infinity times zero is \<open>NaN\<close>\<close>
  "infOf s = (if 0 < s then PosInf else if s < 0 then NegInf else NaN)"


definition fabs :: "jsnum \<Rightarrow> jsnum" where
  \<comment> \<open>\<open>Math.abs\<close>\<close>
  "fabs x = (case x of Num a \<Rightarrow> Num \<bar>a\<bar> | PosInf \<Rightarrow> PosInf | NegInf \<Rightarrow> PosInf | NaN \<Rightarrow> NaN)"

definition fsub :: "jsnum \<Rightarrow> jsnum \<Rightarrow> jsnum" where
  \<comment> \<open>\<open>x - y\<close>\<close>
  "fsub x y =
     (case (x, y) of
        (Num a, Num b) \<Rightarrow> toDouble (a - b)
      | (Num a, PosInf) \<Rightarrow> NegInf
      | (Num a, NegInf) \<Rightarrow> PosInf
      | (PosInf, Num b) \<Rightarrow> PosInf
      | (PosInf, NegInf) \<Rightarrow> PosInf
      | (NegInf, Num b) \<Rightarrow> NegInf
      | (NegInf, PosInf) \<Rightarrow> NegInf
      | _ \<Rightarrow> NaN)"

definition fmul :: "jsnum \<Rightarrow> jsnum \<Rightarrow> jsnum" where
  \<comment> \<open>\<open>x * y\<close>\<close>
  "fmul x y =
     (case (x, y) of
        (Num a, Num b) \<Rightarrow> toDouble (a * b)
      | _ \<Rightarrow> infOf (signOf x * signOf y))"

definition fdiv :: "jsnum \<Rightarrow> jsnum \<Rightarrow> jsnum" where
  \<comment> \<open>\<open>x / y\<close>; a zero divisor, which the engines never reach, is taken as \<open>+0\<close>\<close>
  "fdiv x y =
     (case (x, y) of
        (Num a, Num b) \<Rightarrow> (if b = 0 then infOf (signOf x) else toDouble (a / b))
      | (Num a, PosInf) \<Rightarrow> Num 0
      | (Num a, NegInf) \<Rightarrow> Num 0
      | (PosInf, Num b) \<Rightarrow> (if b < 0 then NegInf else PosInf)
      | (NegInf, Num b) \<Rightarrow> (if b < 0 then PosInf else NegInf)
      | _ \<Rightarrow> NaN)"

definition flt :: "jsnum \<Rightarrow> jsnum \<Rightarrow> bool" where
  \<comment> \<open>\<open>x < y\<close>: false as soon as one side is \<open>NaN\<close>\<close>
  "flt x y =
     (case (x, y) of
        (Num a, Num b) \<Rightarrow> a < b
      | (Num a, PosInf) \<Rightarrow> True
      | (NegInf, Num b) \<Rightarrow> True
      | (NegInf, PosInf) \<Rightarrow> True
      | _ \<Rightarrow> False)"

definition mathRound :: "rat \<Rightarrow> int" where
  \<comment> \<open>\<open>Math.round\<close> of a finite double: the nearest integer, a half going up\<close>
  "mathRound x = \<lfloor>x + 1 / 2\<rfloor>"

subsection \<open>Dates\<close>

text \<open>
  \<open>new Date(s).getTime()\<close> is a parameter \<open>tm\<close> of the model, of type \<open>date_reader\<close>: it
  gives the time value of the string, an integer number of milliseconds of magnitude at most
  \<open>8.64 * 10 ^ 15\<close>, or \<open>None\<close> for an Invalid Date, whose time value is \<open>NaN\<close>. Which
  strings are dates, and which instants they denote, is the engine's business; every result
  below holds for every reader. Time values are doubles and so are their differences:
  \<open>timeDiff a b\<close> is \<open>a - b\<close>.
\<close>

type_synonym date_reader = "string \<Rightarrow> int option"

definition msPerDay :: int where
  "msPerDay = 1000 * 60 * 60 * 24"

definition timeDiff :: "int \<Rightarrow> int \<Rightarrow> rat" where
  "timeDiff a b = roundDouble (of_int a - of_int b)"

section \<open>Data model\<close>

text \<open>
  The fields of \<open>Expense\<close>, of the advisory match entries and of the reconciler's output
  that the reconciliation engine reads or writes. \<open>exp_id\<close> is the field \<open>id\<close>.
\<close>

record expense =
  exp_id :: string
  merchant :: string
  amount :: jsnum
  currency :: string
  date :: string
  category :: string
  source :: string
  bank :: "string option"

record pool_item = expense +
  role :: string

record proposal =
  receiptId :: "string option"
  bankId :: "string option"
  emailId :: "string option"
  proofLabel :: "string option"
  summary :: "string option"

record period =
  month :: string
  year :: int

record matched_pair =
  p_bank :: expense
  p_receipt :: expense
  p_label :: "string option"
  p_summary :: "string option"

record audit =
  matched :: "matched_pair list"
  mandatoryMissing :: "expense list"
  standardMissing :: "expense list"
  optionalMissing :: "expense list"
  score :: int
  totalBankTx :: nat
  totalVault :: nat

type_synonym rates = "string \<Rightarrow> jsnum option"

section \<open>Currency normalizer\<close>

definition convertToINR :: "jsnum \<Rightarrow> string \<Rightarrow> rates \<Rightarrow> jsnum" where
  \<comment> \<open>\<open>!rate\<close> holds of a missing rate, of zero and of \<open>NaN\<close>\<close>
  "convertToINR amt fromCurrency rs =
     (let cur = toUpperCase fromCurrency
      in if cur = ''INR'' then amt
         else (case rs cur of
                 None \<Rightarrow> amt
               | Some rate \<Rightarrow> if rate = Num 0 \<or> rate = NaN then amt else fdiv amt rate))"

section \<open>Reconciliation engine\<close>

definition monthsList :: "string list" where
  "monthsList = [''January'', ''February'', ''March'', ''April'', ''May'', ''June'', ''July'',
     ''August'', ''September'', ''October'', ''November'', ''December'']"

definition isTargetPeriod :: "period \<Rightarrow> string \<Rightarrow> bool" where
  "isTargetPeriod p dateStr =
     (if dateStr = [] then False
      else (let parts = split_on (CHR ''-'') dateStr
            in if length parts < 2 then False
               else (let y = parseInt (parts ! 0);
                         mIdx = map_option (\<lambda>m. m - 1) (parseInt (parts ! 1));
                         yearMatch = (y = Some (year p));
                         monthMatch = (month p = ''All Months'' \<or>
                           (case mIdx of
                              None \<Rightarrow> False
                            | Some i \<Rightarrow> 0 \<le> i \<and> i < 12 \<and> monthsList ! nat i = month p))
                     in yearMatch \<and> monthMatch)))"

definition isAnchor :: "expense \<Rightarrow> bool" where
  "isAnchor e =
     (let src = trim (toLowerCase (source e))
      in src = ''bank_statement'' \<or> src = ''credit_card_statement'')"

definition inAccount :: "string \<Rightarrow> expense \<Rightarrow> bool" where
  \<comment> \<open>\<open>auditBank === "All Accounts" || e.bank === auditBank\<close>\<close>
  "inAccount auditBank e = (auditBank = ''All Accounts'' \<or> bank e = Some auditBank)"

definition allAnchorsInPeriod :: "period \<Rightarrow> string \<Rightarrow> expense list \<Rightarrow> expense list" where
  "allAnchorsInPeriod p auditBank expenses =
     filter (\<lambda>e. isAnchor e \<and> isTargetPeriod p (date e) \<and> inAccount auditBank e) expenses"

definition totalVaultAnchors :: "string \<Rightarrow> expense list \<Rightarrow> expense list" where
  "totalVaultAnchors auditBank expenses =
     filter (\<lambda>e. isAnchor e \<and> inAccount auditBank e) expenses"

definition expenseMap :: "expense list \<Rightarrow> string \<Rightarrow> expense option" where
  \<comment> \<open>the \<open>Map\<close> filled in list order: a later expense replaces an earlier one of the same id,
      and an expense with an empty id is not entered\<close>
  "expenseMap expenses =
     map_of (rev (map (\<lambda>e. (exp_id e, e)) (filter (\<lambda>e. exp_id e \<noteq> []) expenses)))"

definition diffDays :: "date_reader \<Rightarrow> string \<Rightarrow> string \<Rightarrow> rat option" where
  \<comment> \<open>\<open>Math.abs(bDate - rDate) / (1000 * 60 * 60 * 24)\<close>; \<open>None\<close> is \<open>NaN\<close>\<close>
  "diffDays tm d1 d2 =
     (case (tm d1, tm d2) of
        (Some a, Some b) \<Rightarrow> Some (roundDouble (\<bar>timeDiff a b\<bar> / of_int msPerDay))
      | _ \<Rightarrow> None)"

definition sameAmt :: "rates \<Rightarrow> expense \<Rightarrow> expense \<Rightarrow> bool" where
  \<comment> \<open>the literals \<open>0.10\<close> and \<open>0.05\<close> are the doubles nearest to one tenth and to one
      twentieth\<close>
  "sameAmt rs b r =
     (let bINR = convertToINR (amount b) (currency b) rs;
          rINR = convertToINR (amount r) (currency r) rs;
          sameCurrency = (currency b = currency r)
      in if sameCurrency then flt (fabs (fsub (amount b) (amount r))) (Num (roundDouble (10 / 100)))
         else flt (fabs (fsub bINR rINR)) (fmul bINR (Num (roundDouble (5 / 100)))))"

definition isTele :: "string \<Rightarrow> bool" where
  "isTele m = (str_includes m ''e&'' \<or> str_includes m ''etisalat'')"

definition isRTA :: "string \<Rightarrow> bool" where
  "isRTA m = (str_includes m ''rta'' \<or> str_includes m ''road & transport''
     \<or> str_includes m ''dubai metro'' \<or> str_includes m ''hala taxi'')"

definition mercMatch :: "expense \<Rightarrow> expense \<Rightarrow> bool" where
  "mercMatch b r =
     (let bMerc = toLowerCase (merchant b); rMerc = toLowerCase (merchant r)
      in (isTele bMerc \<and> isTele rMerc) \<or> (isRTA bMerc \<and> isRTA rMerc)
         \<or> str_includes rMerc (substring04 bMerc) \<or> str_includes bMerc (substring04 rMerc))"

definition isHotel :: "expense \<Rightarrow> expense \<Rightarrow> bool" where
  "isHotel b r =
     (str_includes (toLowerCase (category b)) ''lodging'' \<or> str_includes (toLowerCase (category b)) ''hotel''
      \<or> str_includes (toLowerCase (category r)) ''lodging'' \<or> str_includes (toLowerCase (category r)) ''hotel'')"

definition validateProposal :: "date_reader \<Rightarrow> rates \<Rightarrow> expense list \<Rightarrow> proposal \<Rightarrow> matched_pair option" where
  \<comment> \<open>the body of the \<open>map\<close> over \<open>reconciliation.matched\<close>; \<open>None\<close> is its \<open>null\<close>\<close>
  "validateProposal tm rs expenses m =
     (let bk = (if truthy (bankId m) then expenseMap expenses (the (bankId m)) else None);
          rid = (if truthy (receiptId m) then receiptId m else emailId m);
          rc = (if truthy rid then expenseMap expenses (the rid) else None)
      in case (bk, rc) of
           (Some b, Some r) \<Rightarrow>
             if exp_id b = exp_id r \<or> isAnchor r then None
             else (let maxDays = (if isHotel b r then 14 else 7);
                       tooFar = (case diffDays tm (date b) (date r) of None \<Rightarrow> False | Some d \<Rightarrow> d > maxDays)
                   in if tooFar \<or> \<not> sameAmt rs b r \<or> \<not> mercMatch b r then None
                      else Some \<lparr>p_bank = b, p_receipt = r, p_label = proofLabel m, p_summary = summary m\<rparr>)
         | _ \<Rightarrow> None)"

definition advisoryPairs :: "date_reader \<Rightarrow> rates \<Rightarrow> period \<Rightarrow> string \<Rightarrow> expense list \<Rightarrow> proposal list \<Rightarrow> matched_pair list" where
  "advisoryPairs tm rs p auditBank expenses ms =
     filter (\<lambda>pr. isTargetPeriod p (date (p_bank pr)) \<and> inAccount auditBank (p_bank pr))
       (List.map_filter (validateProposal tm rs expenses) ms)"

definition autoMatch :: "date_reader \<Rightarrow> rates \<Rightarrow> expense \<Rightarrow> expense \<Rightarrow> bool" where
  \<comment> \<open>the predicate of \<open>availableReceipts.find\<close> in the fallback pass\<close>
  "autoMatch tm rs bankTx rc =
     (let maxDays = (if isHotel bankTx rc then 14 else 3);
          withinWindow = (case diffDays tm (date bankTx) (date rc) of None \<Rightarrow> False | Some d \<Rightarrow> d \<le> maxDays);
          validSource = (\<not> isAnchor rc)
      in sameAmt rs bankTx rc \<and> withinWindow \<and> mercMatch bankTx rc \<and> validSource)"

fun fallbackLoop :: "date_reader \<Rightarrow> rates \<Rightarrow> expense list \<Rightarrow> matched_pair list \<times> string set \<times> expense list
    \<Rightarrow> matched_pair list \<times> string set \<times> expense list" where
  \<comment> \<open>\<open>unmatchedAnchors.forEach\<close>; the state is \<open>matchedPairs\<close>, \<open>matchedBankIds\<close> and
      \<open>availableReceipts\<close>\<close>
  "fallbackLoop tm rs [] st = st"
| "fallbackLoop tm rs (bankTx # rest) (pairs, ids, avail) =
     (case find (autoMatch tm rs bankTx) avail of
        None \<Rightarrow> fallbackLoop tm rs rest (pairs, ids, avail)
      | Some r \<Rightarrow>
          fallbackLoop tm rs rest
            (pairs @ [\<lparr>p_bank = bankTx, p_receipt = r,
                        p_label = Some ''AUTO-VERIFIED (Forensic Match)'',
                        p_summary = Some (''Verified via '' @ [CHR 0xC2, CHR 0xB1] @ ''3 day clearance window heuristic match.'')\<rparr>],
             insert (exp_id bankTx) ids,
             remove1 r avail))"

definition isMandatory :: "expense \<Rightarrow> bool" where
  "isMandatory e =
     (let merc = toLowerCase (merchant e); cat = toLowerCase (category e)
      in list_ex (\<lambda>k. str_includes merc k \<or> str_includes cat k)
           [''travel'', ''hotel'', ''flight'', ''airline'', ''stay'', ''flydubai'', ''ibis'', ''accommodation''])"

definition isOptional :: "rates \<Rightarrow> expense \<Rightarrow> bool" where
  "isOptional rs e =
     (let amountINR = convertToINR (amount e) (currency e) rs;
          merc = toLowerCase (merchant e); cat = toLowerCase (category e)
      in list_ex (\<lambda>k. str_includes merc k \<or> str_includes cat k)
           [''bank charges'', ''transfer'', ''vat'', ''tax'', ''finance'', ''charge'']
         \<or> flt amountINR (Num 225))"

fun classify :: "rates \<Rightarrow> expense list \<Rightarrow> expense list \<times> expense list \<times> expense list" where
  \<comment> \<open>\<open>finalUnmatchedBankTx.forEach\<close>: the mandatory, standard and optional lists, in order\<close>
  "classify rs [] = ([], [], [])"
| "classify rs (e # es) =
     (case classify rs es of (man, std, opt) \<Rightarrow>
        if isMandatory e then (e # man, std, opt)
        else if isOptional rs e then (man, std, e # opt)
        else (man, e # std, opt))"

definition matchedBankIds0 :: "matched_pair list \<Rightarrow> string set" where
  \<comment> \<open>\<open>new Set(matchedPairs.map(p => p.bank?.id).filter(Boolean))\<close>\<close>
  "matchedBankIds0 pairs0 = set (filter (\<lambda>i. i \<noteq> []) (map (\<lambda>pr. exp_id (p_bank pr)) pairs0))"

definition fallbackPass :: "date_reader \<Rightarrow> rates \<Rightarrow> expense list \<Rightarrow> expense list \<Rightarrow> matched_pair list
    \<Rightarrow> matched_pair list \<times> string set \<times> expense list" where
  "fallbackPass tm rs anchors expenses pairs0 =
     (let matchedBankIds = matchedBankIds0 pairs0;
          unmatchedAnchors = filter (\<lambda>b. exp_id b \<notin> matchedBankIds) anchors;
          availableReceipts =
            filter (\<lambda>e. \<not> isAnchor e \<and> \<not> list_ex (\<lambda>pr. exp_id (p_receipt pr) = exp_id e) pairs0) expenses
      in fallbackLoop tm rs unmatchedAnchors (pairs0, matchedBankIds, availableReceipts))"

definition complianceScore :: "nat \<Rightarrow> nat \<Rightarrow> nat \<Rightarrow> int" where
  \<comment> \<open>\<open>score\<close>, from the lengths of \<open>matchedPairs\<close>, \<open>mandatoryMissing\<close> and \<open>standardMissing\<close>:
      \<open>Math.round((matchedPairs.length / scoreDenominator) * 100)\<close>, a division and a
      multiplication of doubles\<close>
  "complianceScore nMatched nMandatory nStandard =
     (let scoreDenominator = nMatched + nMandatory + nStandard
      in if scoreDenominator > 0
         then mathRound (roundDouble (roundDouble (of_nat nMatched / of_nat scoreDenominator) * 100))
         else 100)"

definition filteredData :: "date_reader \<Rightarrow> rates \<Rightarrow> period \<Rightarrow> string \<Rightarrow> expense list \<Rightarrow> proposal list \<Rightarrow> audit" where
  "filteredData tm rs p auditBank expenses ms =
     (let anchors = allAnchorsInPeriod p auditBank expenses;
          pairs0 = advisoryPairs tm rs p auditBank expenses ms
      in case fallbackPass tm rs anchors expenses pairs0 of
           (matchedPairs, ids, _) \<Rightarrow>
             (let finalUnmatchedBankTx = filter (\<lambda>b. exp_id b \<notin> ids) anchors
              in case classify rs finalUnmatchedBankTx of
                   (man, std, opt) \<Rightarrow>
                     \<lparr>matched = matchedPairs, mandatoryMissing = man, standardMissing = std,
                      optionalMissing = opt,
                      score = complianceScore (length matchedPairs) (length man) (length std),
                      totalBankTx = length anchors,
                      totalVault = length (totalVaultAnchors auditBank expenses)\<rparr>))"

section \<open>Advisory matcher (server side)\<close>

record ai_match =
  ai_bankId :: string
  ai_receiptId :: string
  ai_proofLabel :: string
  ai_summary :: string

record reconciliation =
  r_matched :: "ai_match list"
  unmatchedReceipts :: "string list"
  unmatchedBankTransactions :: "string list"

text \<open>
  The model call of one batch is a parameter: it receives the batch number and the batch pool
  and gives the matches of its output, or \<open>None\<close> when the call fails after its retries.
\<close>

type_synonym generate = "nat \<Rightarrow> pool_item list \<Rightarrow> ai_match list option"

definition BATCH_SIZE :: nat where
  "BATCH_SIZE = 15"

definition addMatches :: "ai_match list \<Rightarrow> ai_match list \<Rightarrow> ai_match list" where
  \<comment> \<open>the deduplication guard: a match is kept unless its \<open>bankId\<close> is already there\<close>
  "addMatches allMatches new =
     foldl (\<lambda>acc m. if list_ex (\<lambda>x. ai_bankId x = ai_bankId m) acc then acc else acc @ [m]) allMatches new"

function batchLoop :: "generate \<Rightarrow> pool_item list \<Rightarrow> pool_item list \<Rightarrow> nat
    \<Rightarrow> ai_match list \<times> string list \<Rightarrow> ai_match list \<times> string list" where
  "batchLoop gen anchors proofs i (allMatches, unmatchedBankIds) =
     (if i < length anchors
      then (let currentBatch = take BATCH_SIZE (drop i anchors);
                batchPool = currentBatch @ proofs
            in case gen (i div BATCH_SIZE) batchPool of
                 Some ms \<Rightarrow>
                   batchLoop gen anchors proofs (i + BATCH_SIZE) (addMatches allMatches ms, unmatchedBankIds)
               | None \<Rightarrow>
                   batchLoop gen anchors proofs (i + BATCH_SIZE)
                     (allMatches, unmatchedBankIds @ map exp_id currentBatch))
      else (allMatches, unmatchedBankIds))"
  by pat_completeness auto
termination
  by (relation "measure (\<lambda>(gen, anchors, proofs, i, st). length anchors - i)") (auto simp: BATCH_SIZE_def)

definition runReconciliationAgent :: "generate \<Rightarrow> pool_item list \<Rightarrow> reconciliation" where
  "runReconciliationAgent gen expenses =
     (let anchors = filter (\<lambda>e. role e = ''ANCHOR'') expenses;
          proofs = filter (\<lambda>e. role e = ''PROOF'') expenses
      in if length anchors = 0
         then \<lparr>r_matched = [], unmatchedReceipts = map exp_id proofs, unmatchedBankTransactions = []\<rparr>
         else (case batchLoop gen anchors proofs 0 ([], []) of
                 (allMatches, unmatchedBankIds) \<Rightarrow>
                   \<lparr>r_matched = allMatches,
                    unmatchedReceipts =
                      map exp_id (filter (\<lambda>p. exp_id p \<notin> set (map ai_receiptId allMatches)) proofs),
                    unmatchedBankTransactions =
                      map exp_id (filter (\<lambda>a. exp_id a \<notin> set (map ai_bankId allMatches)) anchors)
                      @ unmatchedBankIds\<rparr>))"

section \<open>Travel linkage engine\<close>

text \<open>
  The fields of \<open>TravelLog\<close> that the engine reads or writes (\<open>log_id\<close> is the field
  \<open>id\<close>; a log that is not stored yet carries an empty one). \<open>days_spent\<close> is a number,
  \<open>None\<close> standing for \<open>NaN\<close>. The time stamps \<open>uploaded_at\<close> and \<open>updated_at\<close> are left out:
  nothing reads them.
\<close>

datatype travel_type = Flight | Accommodation

datatype travel_status = Complete | OpenAwaitingReturn | IncompleteOutboundMissing

datatype hotel_status = Verified | Missing | Mismatch | NotRequired

record travel_log =
  log_id :: string
  destination_country :: string
  destination_city :: string
  start_date :: string
  end_date :: "string option"
  return_date :: "string option"
  days_spent :: "int option"
  status :: travel_status
  travel_type :: travel_type
  reference_number :: "string option"
  hotel_verification_status :: "hotel_status option"
  linked_hotel_id :: "string option"
  linked_flight_id :: "string option"
  document_id :: "string option"
  outbound_flight_id :: "string option"
  return_flight_id :: "string option"

definition isHomeLocation :: "travel_log \<Rightarrow> bool" where
  "isHomeLocation lg =
     (let dest = toLowerCase (destination_country lg @ '' '' @ destination_city lg)
      in str_includes dest ''uae'' \<or> str_includes dest ''emirates'' \<or> str_includes dest ''dubai''
         \<or> str_includes dest ''united arab emirates'')"

definition calculateDuration :: "date_reader \<Rightarrow> string \<Rightarrow> string option \<Rightarrow> int option" where
  "calculateDuration tm start fin =
     (case (tm start, tm (orElse fin start)) of
        (Some s, Some e) \<Rightarrow> Some (\<lceil>roundDouble (\<bar>timeDiff e s\<bar> / of_int msPerDay)\<rceil> + 1)
      | _ \<Rightarrow> None)"

text \<open>
  \<open>Array.prototype.sort\<close> with the comparator \<open>(a, b) => time(a) - time(b)\<close> is a stable sort;
  \<open>sortBy\<close> is stable insertion under "the comparator is positive". With an Invalid Date the
  comparator is \<open>NaN\<close>, which is not positive; the order that an engine gives to a list with
  such dates is its own, and the results on bridging below are stated for every order of the
  two lists as well.
\<close>

definition laterDate :: "date_reader \<Rightarrow> string \<Rightarrow> string \<Rightarrow> bool" where
  \<comment> \<open>\<open>new Date(a).getTime() - new Date(b).getTime() > 0\<close>\<close>
  "laterDate tm a b = (case (tm a, tm b) of (Some x, Some y) \<Rightarrow> timeDiff x y > 0 | _ \<Rightarrow> False)"

fun insertBy :: "('a \<Rightarrow> 'a \<Rightarrow> bool) \<Rightarrow> 'a \<Rightarrow> 'a list \<Rightarrow> 'a list" where
  "insertBy gt x [] = [x]"
| "insertBy gt x (y # ys) = (if gt x y then y # insertBy gt x ys else x # y # ys)"

definition sortBy :: "('a \<Rightarrow> 'a \<Rightarrow> bool) \<Rightarrow> 'a list \<Rightarrow> 'a list" where
  "sortBy gt xs = foldr (insertBy gt) xs []"

subsection \<open>The store\<close>

text \<open>
  The collection \<open>travel_logs\<close> is the list of its documents, in the order in which
  \<open>getDocs\<close> yields them. \<open>setDoc\<close> with \<open>merge\<close> overwrites the given fields of the document
  of the given id; the engine only writes to ids of documents it has fetched. \<open>addDoc\<close> stores a
  new document under the id the id supply gives for the current size of the collection.
\<close>

type_synonym store = "travel_log list"

definition setDoc :: "string \<Rightarrow> (travel_log \<Rightarrow> travel_log) \<Rightarrow> store \<Rightarrow> store" where
  "setDoc i upd st = map (\<lambda>d. if log_id d = i then upd d else d) st"

definition addDoc :: "(nat \<Rightarrow> string) \<Rightarrow> travel_log \<Rightarrow> store \<Rightarrow> string \<times> store" where
  "addDoc genId doc st = (let i = genId (length st) in (i, st @ [doc\<lparr>log_id := i\<rparr>]))"

subsection \<open>Ingestion\<close>

definition isDuplicate :: "travel_log list \<Rightarrow> travel_log \<Rightarrow> bool" where
  "isDuplicate existingLogs lg =
     list_ex (\<lambda>existing.
        (truthy (reference_number lg) \<and> truthy (reference_number existing)
           \<and> toUpperCase (the (reference_number lg)) = toUpperCase (the (reference_number existing)))
        \<or> (start_date lg = start_date existing
            \<and> toLowerCase (destination_city lg) = toLowerCase (destination_city existing)
            \<and> travel_type lg = travel_type existing))
       existingLogs"

definition newLog :: "date_reader \<Rightarrow> travel_log \<Rightarrow> travel_log" where
  "newLog tm lg =
     (let isAccommodation = (travel_type lg = Accommodation);
          isHome = isHomeLocation lg;
          documentDuration = calculateDuration tm (start_date lg) (end_date lg);
          isRoundTrip = (\<not> isAccommodation \<and> \<not> isHome \<and> truthy (return_date lg))
      in lg\<lparr>days_spent := (if isHome \<or> isRoundTrip \<or> isAccommodation then documentDuration else Some 1),
              status := (if isHome \<or> isRoundTrip \<or> isAccommodation then Complete else OpenAwaitingReturn),
              hotel_verification_status :=
                Some (if \<not> isAccommodation \<and> \<not> isHome then Missing else NotRequired)\<rparr>)"

fun ingestLoop :: "date_reader \<Rightarrow> (nat \<Rightarrow> string) \<Rightarrow> travel_log list \<Rightarrow> travel_log list
    \<Rightarrow> store \<times> travel_log list \<Rightarrow> store \<times> travel_log list" where
  \<comment> \<open>\<open>for (const log of sortedLogs)\<close>; the state is the store and \<open>initialResults\<close>\<close>
  "ingestLoop tm genId existingLogs [] s = s"
| "ingestLoop tm genId existingLogs (lg # rest) (st, initialResults) =
     (if isDuplicate existingLogs lg then ingestLoop tm genId existingLogs rest (st, initialResults)
      else (case addDoc genId (newLog tm lg) st of
              (i, st') \<Rightarrow>
                ingestLoop tm genId existingLogs rest (st', initialResults @ [(newLog tm lg)\<lparr>log_id := i\<rparr>])))"

subsection \<open>Hotel verification\<close>

definition hotelMatches :: "date_reader \<Rightarrow> travel_log \<Rightarrow> travel_log \<Rightarrow> bool" where
  \<comment> \<open>the predicate of \<open>hotels.find\<close> for a flight\<close>
  "hotelMatches tm flight hotel =
     (let flightCity = toLowerCase (destination_city flight);
          hotelCity = toLowerCase (destination_city hotel);
          cityMatch = (str_includes flightCity hotelCity \<or> str_includes hotelCity flightCity);
          dateMatch =
            (case (tm (start_date flight), tm (start_date hotel)) of
               (Some fDate, Some hDate) \<Rightarrow>
                 (let diffDays = roundDouble (timeDiff hDate fDate / of_int msPerDay)
                  in diffDays \<ge> - 1 \<and> diffDays \<le> 2)
             | _ \<Rightarrow> False)
      in cityMatch \<and> dateMatch
         \<and> (\<not> truthy (linked_flight_id hotel) \<or> linked_flight_id hotel = Some (log_id flight)))"

definition skipsFlight :: "travel_log \<Rightarrow> bool" where
  "skipsFlight flight = (hotel_verification_status flight = Some Verified \<or> isHomeLocation flight)"

definition verifyFlight :: "date_reader \<Rightarrow> travel_log list \<Rightarrow> travel_log \<Rightarrow> store \<Rightarrow> store" where
  \<comment> \<open>the body of \<open>for (const flight of flights)\<close>\<close>
  "verifyFlight tm hotels flight st =
     (if skipsFlight flight then st
      else (case find (hotelMatches tm flight) hotels of
              None \<Rightarrow> st
            | Some match \<Rightarrow>
                setDoc (log_id match)
                  (\<lambda>d. d\<lparr>status := Complete, linked_flight_id := Some (log_id flight),
                          hotel_verification_status := Some Verified\<rparr>)
                  (setDoc (log_id flight)
                     (\<lambda>d. d\<lparr>hotel_verification_status := Some Verified,
                             linked_hotel_id := Some (orElse (document_id match) (log_id match))\<rparr>)
                     st)))"

definition verifyHotels :: "date_reader \<Rightarrow> travel_log list \<Rightarrow> store \<Rightarrow> store" where
  \<comment> \<open>the pass over the snapshot \<open>allLogs\<close>, writing to the store\<close>
  "verifyHotels tm allLogs st =
     (let flights = filter (\<lambda>l. travel_type l = Flight) allLogs;
          hotels = filter (\<lambda>l. travel_type l = Accommodation) allLogs
      in foldl (\<lambda>s flight. verifyFlight tm hotels flight s) st flights)"

subsection \<open>Bridging\<close>

text \<open>
  \<open>arrivals\<close> and \<open>openOutbounds\<close> hold references to the objects of \<open>allLogs\<close>, which the loop
  mutates: a reference is the index of the object in the working set.
\<close>

definition arrivals :: "date_reader \<Rightarrow> travel_log list \<Rightarrow> nat list" where
  "arrivals tm allLogs =
     sortBy (\<lambda>a b. laterDate tm (start_date (allLogs ! a)) (start_date (allLogs ! b)))
       (filter (\<lambda>i. travel_type (allLogs ! i) = Flight \<and> isHomeLocation (allLogs ! i)) [0..<length allLogs])"

definition openOutbounds :: "date_reader \<Rightarrow> travel_log list \<Rightarrow> nat list" where
  "openOutbounds tm allLogs =
     sortBy (\<lambda>a b. laterDate tm (start_date (allLogs ! a)) (start_date (allLogs ! b)))
       (filter (\<lambda>i. status (allLogs ! i) = OpenAwaitingReturn \<and> \<not> isHomeLocation (allLogs ! i))
          [0..<length allLogs])"

definition notAfter :: "date_reader \<Rightarrow> string \<Rightarrow> string \<Rightarrow> bool" where
  \<comment> \<open>\<open>new Date(a) <= new Date(b)\<close>\<close>
  "notAfter tm a b = (case (tm a, tm b) of (Some x, Some y) \<Rightarrow> x \<le> y | _ \<Rightarrow> False)"

definition eligible :: "date_reader \<Rightarrow> travel_log list \<Rightarrow> nat \<Rightarrow> nat \<Rightarrow> bool" where
  \<comment> \<open>the predicate of \<open>find\<close> for an arrival, on an open outbound\<close>
  "eligible tm ws a ob =
     (notAfter tm (start_date (ws ! ob)) (start_date (ws ! a)) \<and> \<not> truthy (return_flight_id (ws ! ob)))"

definition inclusiveDays :: "date_reader \<Rightarrow> string \<Rightarrow> string \<Rightarrow> int option" where
  \<comment> \<open>\<open>Math.max(1, Math.floor((end - start) / (1000 * 60 * 60 * 24)) + 1)\<close>\<close>
  "inclusiveDays tm start fin =
     (case (tm start, tm fin) of
        (Some s, Some e) \<Rightarrow> Some (max 1 (\<lfloor>roundDouble (timeDiff e s / of_int msPerDay)\<rfloor> + 1))
      | _ \<Rightarrow> None)"

definition bridgeStep :: "date_reader \<Rightarrow> nat list \<Rightarrow> travel_log list \<times> store \<Rightarrow> nat \<Rightarrow> travel_log list \<times> store" where
  \<comment> \<open>the body of \<open>for (const arrival of arrivals)\<close>; the state is the working set and the store\<close>
  "bridgeStep tm opens s a =
     (case s of (ws, st) \<Rightarrow>
        if truthy (outbound_flight_id (ws ! a)) then (ws, st)
        else (case find (eligible tm ws a) (rev opens) of
                None \<Rightarrow> (ws, st)
              | Some ob \<Rightarrow>
                  (let arrival = ws ! a;
                       outbound = ws ! ob;
                       days = inclusiveDays tm (start_date outbound) (start_date arrival);
                       st1 = setDoc (log_id outbound)
                               (\<lambda>d. d\<lparr>status := Complete, return_date := Some (start_date arrival),
                                       return_flight_id := Some (log_id arrival), days_spent := days\<rparr>) st;
                       st2 = setDoc (log_id arrival)
                               (\<lambda>d. d\<lparr>outbound_flight_id := Some (log_id outbound)\<rparr>) st1;
                       ws1 = ws[ob := outbound\<lparr>return_flight_id := Some (log_id arrival)\<rparr>];
                       ws2 = ws1[a := (ws1 ! a)\<lparr>outbound_flight_id := Some (log_id outbound)\<rparr>]
                   in (ws2, st2))))"

definition bridgeLoop :: "date_reader \<Rightarrow> nat list \<Rightarrow> nat list \<Rightarrow> travel_log list \<times> store
    \<Rightarrow> travel_log list \<times> store" where
  \<comment> \<open>\<open>for (const arrival of arrivals)\<close>, over the two lists as the sort has left them\<close>
  "bridgeLoop tm opens arrs s = foldl (bridgeStep tm opens) s arrs"

definition bridgeFlights :: "date_reader \<Rightarrow> travel_log list \<Rightarrow> store \<Rightarrow> travel_log list \<times> store" where
  "bridgeFlights tm allLogs st =
     bridgeLoop tm (openOutbounds tm allLogs) (arrivals tm allLogs) (allLogs, st)"

subsection \<open>The whole operation\<close>

definition addTravelLogs :: "date_reader \<Rightarrow> (nat \<Rightarrow> string) \<Rightarrow> store \<Rightarrow> travel_log list \<Rightarrow> store \<times> travel_log list" where
  \<comment> \<open>the store after the call, and the returned \<open>initialResults\<close>\<close>
  "addTravelLogs tm genId st logs =
     (let sortedLogs = sortBy (\<lambda>a b. laterDate tm (start_date a) (start_date b)) logs;
          existingLogs = st
      in case ingestLoop tm genId existingLogs sortedLogs (st, []) of
           (st1, initialResults) \<Rightarrow>
             (let allLogs = st1;
                  st2 = verifyHotels tm allLogs st1
              in (snd (bridgeFlights tm allLogs st2), initialResults)))"

section \<open>Notions used in the statements and proofs\<close>


definition verified :: "travel_log \<Rightarrow> bool" where
  "verified d = (hotel_verification_status d = Some Verified)"

text \<open>
  How a document of the store can differ, during a hotel verification pass, from the document
  of the snapshot it comes from: \<open>hs\<close> are the hotels of the snapshot.
\<close>

definition evolves :: "date_reader \<Rightarrow> travel_log list \<Rightarrow> travel_log \<Rightarrow> travel_log \<Rightarrow> bool" where
  "evolves tm hs d d' =
     (log_id d' = log_id d \<and> travel_type d' = travel_type d
      \<and> destination_city d' = destination_city d \<and> destination_country d' = destination_country d
      \<and> start_date d' = start_date d
      \<and> (verified d \<longrightarrow> verified d')
      \<and> (linked_flight_id d' = linked_flight_id d
          \<or> (\<exists>f. find (hotelMatches tm f) hs = Some d \<and> linked_flight_id d' = Some (log_id f))))"

definition linkFields :: "travel_log \<Rightarrow> string \<times> string option \<times> string option" where
  "linkFields d = (log_id d, outbound_flight_id d, return_flight_id d)"

text \<open>
  The invariant of the data model on the links between flights: the record that an
  \<open>outbound_flight_id\<close> names is in the set and names the arrival back in its
  \<open>return_flight_id\<close>, and conversely.
\<close>

definition linksSymmetric :: "travel_log list \<Rightarrow> bool" where
  "linksSymmetric ws =
     ((\<forall>x \<in> set ws. truthy (outbound_flight_id x) \<longrightarrow>
          (\<exists>y \<in> set ws. outbound_flight_id x = Some (log_id y) \<and> return_flight_id y = Some (log_id x)))
      \<and> (\<forall>y \<in> set ws. truthy (return_flight_id y) \<longrightarrow>
          (\<exists>x \<in> set ws. return_flight_id y = Some (log_id x) \<and> outbound_flight_id x = Some (log_id y))))"




section \<open>Example data\<close>

text \<open>
  The examples use dates of the form \<open>YYYY-MM-DD\<close>, which every engine reads as midnight UTC
  of that day of the calendar, and the string \<open>unknown\<close>, which none reads as a date.
  \<open>isoTime\<close> is a reader that does so; what it does with any other string plays no part.
\<close>

definition isLeap :: "int \<Rightarrow> bool" where
  "isLeap y = ((y mod 4 = 0 \<and> y mod 100 \<noteq> 0) \<or> y mod 400 = 0)"

definition daysInMonth :: "int \<Rightarrow> int \<Rightarrow> int" where
  "daysInMonth y m =
     (if m = 2 then (if isLeap y then 29 else 28)
      else if m = 4 \<or> m = 6 \<or> m = 9 \<or> m = 11 then 30 else 31)"

definition daysFromCivil :: "int \<Rightarrow> int \<Rightarrow> int \<Rightarrow> int" where
  \<comment> \<open>days from 1970-01-01 to the given day of the proleptic Gregorian calendar\<close>
  "daysFromCivil y m d =
     (let y' = (if m \<le> 2 then y - 1 else y);
          era = y' div 400;
          yoe = y' - era * 400;
          doy = (153 * (if m > 2 then m - 3 else m + 9) + 2) div 5 + d - 1;
          doe = yoe * 365 + yoe div 4 - yoe div 100 + doy
      in era * 146097 + doe - 719468)"

definition dayNumber :: "string \<Rightarrow> int option" where
  "dayNumber s =
     (if length s = 10 \<and> s ! 4 = CHR ''-'' \<and> s ! 7 = CHR ''-''
         \<and> list_all isDigit (take 4 s) \<and> list_all isDigit (take 2 (drop 5 s))
         \<and> list_all isDigit (drop 8 s)
      then (let y = digitsValue 10 digitVal (take 4 s);
                m = digitsValue 10 digitVal (take 2 (drop 5 s));
                d = digitsValue 10 digitVal (drop 8 s)
            in if 1 \<le> m \<and> m \<le> 12 \<and> 1 \<le> d \<and> d \<le> daysInMonth y m
               then Some (daysFromCivil y m d) else None)
      else None)"

definition isoTime :: date_reader where
  "isoTime s = map_option (\<lambda>d. d * msPerDay) (dayNumber s)"

definition noRates :: rates where
  "noRates = (\<lambda>c. None)"

definition march2025 :: period where
  "march2025 = \<lparr>month = ''March'', year = 2025\<rparr>"

definition anchorA :: expense where
  "anchorA = \<lparr>exp_id = ''a1'', merchant = ''FLYDUBAI'', amount = Num 500, currency = ''AED'',
     date = ''2025-03-10'', category = ''Travel'', source = ''bank_statement'', bank = None\<rparr>"

definition anchorB :: expense where
  "anchorB = \<lparr>exp_id = ''a2'', merchant = ''CARREFOUR'', amount = Num 320, currency = ''AED'',
     date = ''2025-03-15'', category = ''Groceries'', source = ''credit_card_statement'', bank = None\<rparr>"

definition proofA :: expense where
  "proofA = \<lparr>exp_id = ''r1'', merchant = ''FLYDUBAI DXB'', amount = Num 500, currency = ''AED'',
     date = ''2025-03-11'', category = ''Travel'', source = ''receipt'', bank = None\<rparr>"

definition proofB :: expense where
  "proofB = \<lparr>exp_id = ''r2'', merchant = ''FLYDUBAI'', amount = Num 500, currency = ''AED'',
     date = ''2025-03-12'', category = ''Travel'', source = ''telegram'', bank = None\<rparr>"

definition proofAsBank :: proposal where
  "proofAsBank = \<lparr>receiptId = Some ''r2'', bankId = Some ''r1'', emailId = None,
     proofLabel = None, summary = None\<rparr>"

definition validProposal :: proposal where
  "validProposal = \<lparr>receiptId = Some ''r1'', bankId = Some ''a1'', emailId = None,
     proofLabel = Some ''Receipt'', summary = Some ''Same merchant, one day apart''\<rparr>"

definition secondProposal :: proposal where
  "secondProposal = \<lparr>receiptId = Some ''r2'', bankId = Some ''a1'', emailId = None,
     proofLabel = Some ''Receipt'', summary = Some ''Same merchant, two days apart''\<rparr>"




definition proofsOnly :: "pool_item list" where
  "proofsOnly =
     [\<lparr>exp_id = ''r1'', merchant = ''FLYDUBAI DXB'', amount = Num 500, currency = ''AED'',
       date = ''2025-03-11'', category = ''Travel'', source = ''receipt'', bank = None, role = ''PROOF''\<rparr>,
      \<lparr>exp_id = ''r2'', merchant = ''FLYDUBAI'', amount = Num 500, currency = ''AED'',
       date = ''2025-03-12'', category = ''Travel'', source = ''telegram'', bank = None, role = ''PROOF''\<rparr>]"

definition failingModel :: generate where
  "failingModel = (\<lambda>i pool. None)"

definition blankLog :: travel_log where
  "blankLog = \<lparr>log_id = [], destination_country = [], destination_city = [], start_date = [],
     end_date = None, return_date = None, days_spent = Some 1, status = OpenAwaitingReturn,
     travel_type = Flight, reference_number = None, hotel_verification_status = None,
     linked_hotel_id = None, linked_flight_id = None, document_id = None,
     outbound_flight_id = None, return_flight_id = None\<rparr>"

definition docIds :: "nat \<Rightarrow> string" where
  "docIds n = ''doc'' @ replicate n (CHR ''x'')"

definition undatedStay :: travel_log where
  "undatedStay = blankLog\<lparr>destination_country := ''Oman'', destination_city := ''Muscat'',
     start_date := ''unknown'', travel_type := Accommodation\<rparr>"

definition muscatStay :: travel_log where
  "muscatStay = blankLog\<lparr>destination_country := ''Oman'', destination_city := ''Muscat'',
     start_date := ''2025-01-06'', end_date := Some ''2025-01-08'', travel_type := Accommodation\<rparr>"

definition muscatOutbound :: travel_log where
  "muscatOutbound = blankLog\<lparr>log_id := ''f1'', destination_country := ''Oman'',
     destination_city := ''Muscat'', start_date := ''2025-01-05'',
     hotel_verification_status := Some Missing\<rparr>"

definition dubaiArrival :: travel_log where
  "dubaiArrival = blankLog\<lparr>log_id := ''f2'', destination_country := ''UAE'',
     destination_city := ''Dubai'', start_date := ''2025-01-09'', status := Complete,
     hotel_verification_status := Some NotRequired\<rparr>"


definition secondOutbound :: travel_log where
  "secondOutbound = blankLog\<lparr>log_id := ''f3'', destination_country := ''Oman'',
     destination_city := ''Muscat'', start_date := ''2025-01-07'',
     hotel_verification_status := Some Missing\<rparr>"

definition muscatHotel :: travel_log where
  "muscatHotel = blankLog\<lparr>log_id := ''h1'', destination_country := ''Oman'',
     destination_city := ''Muscat'', start_date := ''2025-01-06'', end_date := Some ''2025-01-08'',
     days_spent := Some 3, status := Complete, travel_type := Accommodation,
     hotel_verification_status := Some NotRequired\<rparr>"

definition twoFlightsOneHotel :: "travel_log list" where
  "twoFlightsOneHotel = [muscatOutbound, secondOutbound, muscatHotel]"

text \<open>
  Forty card lines of March 2025 with a slip for the first twenty-three of them; every line has
  its own amount, so that a line can only match the slip of its number.
\<close>

definition twoDigits :: "nat \<Rightarrow> string" where
  "twoDigits i = [''0123456789'' ! (i div 10), ''0123456789'' ! (i mod 10)]"

definition cardLine :: "nat \<Rightarrow> expense" where
  "cardLine i = \<lparr>exp_id = ''b'' @ twoDigits i, merchant = ''SHOP'', amount = Num (1000 + of_nat i),
     currency = ''AED'', date = ''2025-03-10'', category = ''Misc'', source = ''bank_statement'',
     bank = None\<rparr>"

definition slip :: "nat \<Rightarrow> expense" where
  "slip i = \<lparr>exp_id = ''r'' @ twoDigits i, merchant = ''SHOP'', amount = Num (1000 + of_nat i),
     currency = ''AED'', date = ''2025-03-10'', category = ''Misc'', source = ''receipt'',
     bank = None\<rparr>"

definition fortyLines :: "expense list" where
  "fortyLines = map cardLine [0..<40] @ map slip [0..<23]"

definition autoPair :: "nat \<Rightarrow> matched_pair" where
  "autoPair i = \<lparr>p_bank = cardLine i, p_receipt = slip i,
     p_label = Some ''AUTO-VERIFIED (Forensic Match)'',
     p_summary = Some (''Verified via '' @ [CHR 0xC2, CHR 0xB1] @ ''3 day clearance window heuristic match.'')\<rparr>"

text \<open>
  Flights for the bridging examples: an arrival that names an outbound which does not name it
  back, two trips that overlap, and a trip that is already closed.
\<close>

definition staleArrival :: travel_log where
  "staleArrival = blankLog\<lparr>log_id := ''f4'', destination_country := ''UAE'',
     destination_city := ''Dubai'', start_date := ''2025-01-06'', status := Complete,
     hotel_verification_status := Some NotRequired, outbound_flight_id := Some ''f1''\<rparr>"

definition staleLink :: "travel_log list" where
  "staleLink = [muscatOutbound, staleArrival, dubaiArrival]"

definition laterArrival :: travel_log where
  "laterArrival = blankLog\<lparr>log_id := ''f5'', destination_country := ''UAE'',
     destination_city := ''Dubai'', start_date := ''2025-01-12'', status := Complete,
     hotel_verification_status := Some NotRequired\<rparr>"


definition closedOutbound :: travel_log where
  "closedOutbound = blankLog\<lparr>log_id := ''f6'', destination_country := ''Qatar'',
     destination_city := ''Doha'', start_date := ''2024-12-01'', return_date := Some ''2024-12-05'',
     days_spent := Some 5, status := Complete, hotel_verification_status := Some Missing,
     return_flight_id := Some ''f7''\<rparr>"

definition closedArrival :: travel_log where
  "closedArrival = blankLog\<lparr>log_id := ''f7'', destination_country := ''UAE'',
     destination_city := ''Dubai'', start_date := ''2024-12-05'', status := Complete,
     hotel_verification_status := Some NotRequired, outbound_flight_id := Some ''f6''\<rparr>"

definition threeTrips :: "travel_log list" where
  "threeTrips = [muscatOutbound, secondOutbound, dubaiArrival, laterArrival, closedOutbound, closedArrival]"

section \<open>Properties of the rounding to doubles\<close>

lemma roundEven_near: "\<bar>of_int (roundEven y) - y\<bar> \<le> 1 / 2"
proof -
  have "of_int \<lfloor>y\<rfloor> \<le> y" "y < of_int \<lfloor>y\<rfloor> + 1" by linarith+
  then show ?thesis
    unfolding roundEven_def Let_def by (simp split: if_splits)
qed

lemma roundEven_of_int: "roundEven (of_int k) = k"
  by (simp add: roundEven_def)

lemma roundEven_nonneg: "0 \<le> y \<Longrightarrow> 0 \<le> roundEven y"
proof -
  assume "0 \<le> y"
  then have "0 \<le> \<lfloor>y\<rfloor>" by simp
  then show ?thesis
    unfolding roundEven_def Let_def by simp
qed


lemma powi_bitlen:
  assumes "0 < p"
  shows "(2::rat) powi (bitlen p - 1) \<le> of_int p" and "of_int p < (2::rat) powi bitlen p"
proof -
  have b: "1 \<le> bitlen p" using assms by (auto simp: bitlen_alt_def)
  from bitlen_bounds[OF assms] have lo: "2 ^ nat (bitlen p - 1) \<le> p" and hi: "p < 2 ^ nat (bitlen p)"
    by simp_all
  have "(of_int (2 ^ nat (bitlen p - 1)) :: rat) \<le> of_int p"
    using lo by (simp only: of_int_le_iff)
  then show "(2::rat) powi (bitlen p - 1) \<le> of_int p"
    using b by (simp add: power_int_def)
  have "(of_int p :: rat) < of_int (2 ^ nat (bitlen p))"
    using hi by (simp only: of_int_less_iff)
  then show "of_int p < (2::rat) powi bitlen p"
    using b by (simp add: power_int_def)
qed

lemma binExp_bounds:
  assumes "0 < x"
  shows "2 powi (binExp x + 52) \<le> x" and "x < 2 powi (binExp x + 53)"
proof -
  obtain p q where pq: "quotient_of x = (p, q)" by (cases "quotient_of x")
  have q: "0 < q" using pq by (rule quotient_of_denom_pos)
  have x: "x = of_int p / of_int q" using pq by (rule quotient_of_div)
  have p: "0 < p" using assms q x by (simp add: zero_less_divide_iff)
  define e0 where "e0 = bitlen p - bitlen q - 53"
  have qr: "(0::rat) < of_int q" using q by simp
  have lo: "2 powi (e0 + 52) < x"
  proof -
    have "(2::rat) powi (e0 + 52) * of_int q < 2 powi (e0 + 52) * 2 powi bitlen q"
      using powi_bitlen(2)[OF q] by (intro mult_strict_left_mono) simp_all
    also have "\<dots> = 2 powi (bitlen p - 1)"
      by (simp add: e0_def flip: power_int_add)
    also have "\<dots> \<le> of_int p" using powi_bitlen(1)[OF p] .
    finally show ?thesis using qr by (simp add: x pos_less_divide_eq)
  qed
  have hi: "x < 2 powi (e0 + 54)"
  proof -
    have "(of_int p :: rat) < 2 powi bitlen p" using powi_bitlen(2)[OF p] .
    also have "\<dots> = 2 powi (e0 + 54) * 2 powi (bitlen q - 1)"
      by (simp add: e0_def flip: power_int_add)
    also have "\<dots> \<le> 2 powi (e0 + 54) * of_int q"
      using powi_bitlen(1)[OF q] by (intro mult_left_mono) simp_all
    finally show ?thesis using qr by (simp add: x pos_divide_less_eq)
  qed
  have be: "binExp x = (if 2 powi (e0 + 53) \<le> x then e0 + 1 else e0)"
    by (simp add: binExp_def pq e0_def Let_def)
  show "2 powi (binExp x + 52) \<le> x"
    using lo by (auto simp: be add.commute add.left_commute)
  show "x < 2 powi (binExp x + 53)"
    using hi by (auto simp: be add.commute add.left_commute)
qed

lemma binExp_le:
  assumes "0 < x" and "x < 2 powi (k + 53)"
  shows "binExp x \<le> k"
proof (rule ccontr)
  assume "\<not> binExp x \<le> k"
  then have "k + 53 \<le> binExp x + 52" by simp
  then have "(2::rat) powi (k + 53) \<le> 2 powi (binExp x + 52)"
    by (intro power_int_increasing) simp_all
  then show False using binExp_bounds(1)[OF assms(1)] assms(2) by simp
qed

lemma binExp_ge:
  assumes "0 < x" and "2 powi (k + 52) \<le> x"
  shows "k \<le> binExp x"
proof (rule ccontr)
  assume "\<not> k \<le> binExp x"
  then have "binExp x + 53 \<le> k + 52" by simp
  then have "(2::rat) powi (binExp x + 53) \<le> 2 powi (k + 52)"
    by (intro power_int_increasing) simp_all
  then show False using binExp_bounds(2)[OF assms(1)] assms(2) by simp
qed

lemma roundDouble_minus: "roundDouble (- x) = - roundDouble x"
  by (simp add: roundDouble_def sgn_minus)

lemma roundDouble_nonneg: "0 \<le> x \<Longrightarrow> 0 \<le> roundDouble x"
  by (auto simp: roundDouble_def intro!: mult_nonneg_nonneg roundEven_nonneg divide_nonneg_nonneg)

lemma roundDouble_pos_eq:
  "0 < x \<Longrightarrow> roundDouble x = of_int (roundEven (x / 2 powi ulpExp x)) * 2 powi ulpExp x"
  by (simp add: roundDouble_def)

text \<open>values that have at most 53 significant bits are not changed\<close>

lemma roundDouble_exact:
  assumes n: "\<bar>n\<bar> \<le> 2 ^ 53" and k: "- 1074 \<le> k"
  shows "roundDouble (of_int n * 2 powi k) = of_int n * 2 powi k"
proof -
  have pos: "roundDouble (of_int m * 2 powi k) = of_int m * 2 powi k" if m: "0 < m" "m \<le> 2 ^ 53" for m
  proof (cases "m = 2 ^ 53")
    case False
    define x :: rat where "x = of_int m * 2 powi k"
    have x: "0 < x" using m by (simp add: x_def)
    have "(of_int m :: rat) < of_int (2 ^ 53)" using m False by (simp only: of_int_less_iff)
    then have "x < 2 powi 53 * 2 powi k" 
      unfolding x_def by (intro mult_strict_right_mono) simp_all
    then have "x < 2 powi (k + 53)" by (simp add: power_int_add add.commute)
    then have "binExp x \<le> k" using x by (intro binExp_le)
    then have le: "ulpExp x \<le> k" using k by (simp add: ulpExp_def)
    have "x / 2 powi ulpExp x = of_int m * 2 powi (k - ulpExp x)"
      by (simp add: x_def power_int_diff)
    also have "\<dots> = of_int (m * 2 ^ nat (k - ulpExp x))"
      using le by (simp add: power_int_def)
    finally have "roundEven (x / 2 powi ulpExp x) = m * 2 ^ nat (k - ulpExp x)"
      by (simp only: roundEven_of_int)
    then have "roundDouble x = of_int (m * 2 ^ nat (k - ulpExp x)) * 2 powi ulpExp x"
      using x by (simp add: roundDouble_pos_eq)
    also have "\<dots> = of_int m * (2 powi (k - ulpExp x) * 2 powi ulpExp x)"
      using le by (simp add: power_int_def)
    also have "\<dots> = x"
      by (simp add: x_def flip: power_int_add)
    finally show ?thesis by (simp add: x_def)
  next
    case True
    define x :: rat where "x = of_int m * 2 powi k"
    have x: "0 < x" using m by (simp add: x_def)
    have xe: "x = 2 powi (k + 53)" by (simp add: x_def True power_int_add add.commute)
    have "x < 2 powi (k + 1 + 53)" unfolding xe by (intro power_int_strict_increasing) simp_all
    then have "binExp x \<le> k + 1" using x by (intro binExp_le)
    then have le: "ulpExp x \<le> k + 1" using k by (simp add: ulpExp_def)
    have "x / 2 powi ulpExp x = 2 powi (k + 53 - ulpExp x)"
      by (simp add: xe power_int_diff)
    also have "\<dots> = of_int (2 ^ nat (k + 53 - ulpExp x))"
      using le by (simp add: power_int_def)
    finally have "roundEven (x / 2 powi ulpExp x) = 2 ^ nat (k + 53 - ulpExp x)"
      by (simp only: roundEven_of_int)
    then have "roundDouble x = of_int (2 ^ nat (k + 53 - ulpExp x)) * 2 powi ulpExp x"
      using x by (simp add: roundDouble_pos_eq)
    also have "\<dots> = 2 powi (k + 53 - ulpExp x) * 2 powi ulpExp x"
      using le by (simp add: power_int_def)
    also have "\<dots> = x"
      by (simp add: xe flip: power_int_add)
    finally show ?thesis by (simp add: x_def)
  qed
  consider "n = 0" | "0 < n" | "n < 0" by linarith
  then show ?thesis
  proof cases
    case 1
    then show ?thesis by (simp add: roundDouble_def)
  next
    case 2
    then show ?thesis using pos[of n] n by simp
  next
    case 3
    then have "roundDouble (of_int (- n) * 2 powi k) = of_int (- n) * 2 powi k"
      using pos[of "- n"] n by simp
    then show ?thesis using roundDouble_minus[of "of_int n * 2 powi k"] by simp
  qed
qed

lemma roundDouble_of_int:
  "\<bar>n\<bar> \<le> 2 ^ 53 \<Longrightarrow> roundDouble (of_int n) = of_int n"
  using roundDouble_exact[of n 0] by simp

text \<open>in the normal range the relative error is at most \<open>2\<^sup>-\<^sup>5\<^sup>3\<close>\<close>

lemma roundDouble_error:
  assumes "2 powi (- 1022) \<le> x"
  shows "\<bar>roundDouble x - x\<bar> \<le> x * 2 powi (- 53)"
proof -
  have x: "0 < x" using assms zero_less_power_int[of "2::rat" "- 1022"] by linarith
  have "- 1074 \<le> binExp x" using assms x by (intro binExp_ge) simp_all
  then have e: "ulpExp x = binExp x" by (simp add: ulpExp_def)
  define u :: rat where "u = 2 powi binExp x"
  have u: "0 < u" by (simp add: u_def)
  have "u * 2 powi 52 \<le> x" using binExp_bounds(1)[OF x] by (simp add: u_def power_int_add)
  then have ub: "u / 2 \<le> x * 2 powi (- 53)"
    by (simp add: power_int_minus field_simps)
  have "roundDouble x - x = (of_int (roundEven (x / u)) - x / u) * u"
    using u x by (simp add: roundDouble_pos_eq e u_def left_diff_distrib)
  then have "\<bar>roundDouble x - x\<bar> = \<bar>of_int (roundEven (x / u)) - x / u\<bar> * u"
    using u by (simp only: abs_mult abs_of_pos)
  also have "\<dots> \<le> (1 / 2) * u"
    using u roundEven_near[of "x / u"] by (intro mult_right_mono) simp_all
  finally show ?thesis using ub by simp
qed

text \<open>Integers of at most 53 bits are evaluated without going through the rounding.\<close>

lemma roundDouble_code [code]:
  "roundDouble x =
     (if x = 0 then 0
      else (case quotient_of x of (p, q) \<Rightarrow>
              if q = 1 \<and> \<bar>p\<bar> \<le> 9007199254740992 then x
              else sgn x * of_int (roundEven (\<bar>x\<bar> / 2 powi ulpExp \<bar>x\<bar>)) * 2 powi ulpExp \<bar>x\<bar>))"
proof (cases "quotient_of x")
  case (Pair p q)
  show ?thesis
  proof (cases "q = 1 \<and> \<bar>p\<bar> \<le> 9007199254740992")
    case True
    have "x = of_int p" using quotient_of_div[OF Pair] True by simp
    moreover have "roundDouble (of_int p) = of_int p"
      using True by (intro roundDouble_of_int) simp
    ultimately show ?thesis using Pair True by simp
  next
    case False
    then show ?thesis using Pair by (auto simp: roundDouble_def)
  qed
qed







section \<open>Properties of the reconciliation engine\<close>

lemma filteredData_cases:
  obtains mp ids av man std opt where
    "fallbackPass tm rs (allAnchorsInPeriod p auditBank expenses) expenses
        (advisoryPairs tm rs p auditBank expenses ms) = (mp, ids, av)"
    "classify rs (filter (\<lambda>b. exp_id b \<notin> ids) (allAnchorsInPeriod p auditBank expenses)) = (man, std, opt)"
    "filteredData tm rs p auditBank expenses ms =
       \<lparr>matched = mp, mandatoryMissing = man, standardMissing = std, optionalMissing = opt,
        score = complianceScore (length mp) (length man) (length std),
        totalBankTx = length (allAnchorsInPeriod p auditBank expenses),
        totalVault = length (totalVaultAnchors auditBank expenses)\<rparr>"
proof -
  obtain mp ids av where F: "fallbackPass tm rs (allAnchorsInPeriod p auditBank expenses) expenses
      (advisoryPairs tm rs p auditBank expenses ms) = (mp, ids, av)"
    by (metis prod_cases3)
  obtain man std opt where C:
    "classify rs (filter (\<lambda>b. exp_id b \<notin> ids) (allAnchorsInPeriod p auditBank expenses)) = (man, std, opt)"
    by (metis prod_cases3)
  show thesis
    by (rule that[OF F C]) (simp add: filteredData_def Let_def F C)
qed

subsection \<open>Role integrity of matched pairs\<close>

text \<open>
  C1. Every matched pair should consist of one anchor and one proof. The advisory pass rejects
  a proposal whose receipt side is an anchor, but never looks at the role of the record found
  under \<open>bankId\<close>: for two receipts and the proposal naming one as the bank side and the other
  as the receipt side, the run matches the two proofs with each other.
\<close>

theorem advisory_pass_matches_two_proofs:
  "matched (filteredData isoTime noRates march2025 ''All Accounts'' [proofA, proofB] [proofAsBank])
     = [\<lparr>p_bank = proofA, p_receipt = proofB, p_label = None, p_summary = None\<rparr>]
   \<and> \<not> isAnchor proofA \<and> \<not> isAnchor proofB"
  by code_simp

subsection \<open>Partition of the anchor pool\<close>

lemma classify_mset:
  "classify rs xs = (man, std, opt) \<Longrightarrow> mset man + mset std + mset opt = mset xs"
proof (induction xs arbitrary: man std opt)
  case Nil
  then show ?case by simp
next
  case (Cons e es)
  obtain man' std' opt' where r: "classify rs es = (man', std', opt')"
    by (metis prod_cases3)
  from Cons.IH[OF r] Cons.prems r show ?case
    by (auto split: if_splits)
qed

lemma expenseMap_Some:
  assumes "expenseMap ex k = Some e"
  shows "e \<in> set ex \<and> exp_id e = k \<and> k \<noteq> []"
proof -
  from assms have "(k, e) \<in> set (rev (map (\<lambda>e. (exp_id e, e)) (filter (\<lambda>e. exp_id e \<noteq> []) ex)))"
    unfolding expenseMap_def by (rule map_of_SomeD)
  then show ?thesis by auto
qed

lemma validateProposal_Some:
  assumes "validateProposal tm rs ex m = Some pr"
  shows "truthy (bankId m) \<and> bankId m = Some (exp_id (p_bank pr)) \<and> p_bank pr \<in> set ex
     \<and> p_receipt pr \<in> set ex \<and> \<not> isAnchor (p_receipt pr) \<and> exp_id (p_bank pr) \<noteq> exp_id (p_receipt pr)"
proof -
  let ?bk = "if truthy (bankId m) then expenseMap ex (the (bankId m)) else None"
  let ?rid = "if truthy (receiptId m) then receiptId m else emailId m"
  let ?rc = "if truthy ?rid then expenseMap ex (the ?rid) else None"
  from assms obtain b r where bk: "?bk = Some b" and rc: "?rc = Some r"
    and rest: "\<not> (exp_id b = exp_id r \<or> isAnchor r)" and pr: "p_bank pr = b" "p_receipt pr = r"
    unfolding validateProposal_def Let_def
    by (auto split: option.splits if_splits)
  from bk have t: "truthy (bankId m)" and eb: "expenseMap ex (the (bankId m)) = Some b"
    by (auto split: if_splits)
  from t obtain k where k: "bankId m = Some k" by (auto simp: truthy_def split: option.splits)
  from rc have er: "expenseMap ex (the ?rid) = Some r" by (auto split: if_splits)
  show ?thesis
    using expenseMap_Some[OF eb] expenseMap_Some[OF er] t k rest pr by auto
qed

lemma advisory_bank_ids:
  "map (\<lambda>pr. Some (exp_id (p_bank pr))) (List.map_filter (validateProposal tm rs ex) ms)
     = map bankId (filter (\<lambda>m. validateProposal tm rs ex m \<noteq> None) (filter (\<lambda>m. truthy (bankId m)) ms))"
proof (induction ms)
  case Nil
  then show ?case by (simp add: List.map_filter_simps)
next
  case (Cons m ms)
  show ?case
  proof (cases "validateProposal tm rs ex m")
    case None
    then show ?thesis using Cons by (simp add: List.map_filter_simps)
  next
    case (Some pr)
    then show ?thesis using Cons validateProposal_Some[OF Some] by (auto simp add: List.map_filter_simps)
  qed
qed

lemma advisory_distinct:
  assumes "distinct (map bankId (filter (\<lambda>m. truthy (bankId m)) ms))"
  shows "distinct (map (\<lambda>pr. exp_id (p_bank pr)) (advisoryPairs tm rs p auditBank ex ms))"
proof -
  have "distinct (map bankId (filter (\<lambda>m. validateProposal tm rs ex m \<noteq> None) (filter (\<lambda>m. truthy (bankId m)) ms)))"
    using assms by (rule distinct_map_filter)
  then have "distinct (map (\<lambda>pr. Some (exp_id (p_bank pr))) (List.map_filter (validateProposal tm rs ex) ms))"
    by (simp only: advisory_bank_ids)
  then have "distinct (map (\<lambda>pr. exp_id (p_bank pr)) (List.map_filter (validateProposal tm rs ex) ms))"
    by (simp add: distinct_map inj_on_def)
  then show ?thesis
    unfolding advisoryPairs_def by (rule distinct_map_filter)
qed

lemma advisoryPairs_mem:
  assumes "pr \<in> set (advisoryPairs tm rs p auditBank ex ms)"
  shows "p_bank pr \<in> set ex \<and> exp_id (p_bank pr) \<noteq> [] \<and> isTargetPeriod p (date (p_bank pr))
     \<and> inAccount auditBank (p_bank pr) \<and> p_receipt pr \<in> set ex \<and> \<not> isAnchor (p_receipt pr)"
proof -
  from assms obtain m where "validateProposal tm rs ex m = Some pr"
    and sc: "isTargetPeriod p (date (p_bank pr))" "inAccount auditBank (p_bank pr)"
    unfolding advisoryPairs_def by (auto simp: List.map_filter_def)
  from validateProposal_Some[OF this(1)] sc show ?thesis
    by (auto simp: truthy_def)
qed

lemma fallbackLoop_result:
  "\<exists>np. fst (fallbackLoop tm rs xs (pairs, ids, avail)) = pairs @ np
       \<and> subseq (map p_bank np) xs
       \<and> fst (snd (fallbackLoop tm rs xs (pairs, ids, avail))) = ids \<union> set (map (\<lambda>pr. exp_id (p_bank pr)) np)
       \<and> (\<forall>pr \<in> set np. p_receipt pr \<in> set avail \<and> \<not> isAnchor (p_receipt pr))"
proof (induction xs arbitrary: pairs ids avail)
  case Nil
  then show ?case by simp
next
  case (Cons x xs)
  show ?case
  proof (cases "find (autoMatch tm rs x) avail")
    case None
    from Cons.IH[of pairs ids avail] obtain np where
      "fst (fallbackLoop tm rs xs (pairs, ids, avail)) = pairs @ np"
      "subseq (map p_bank np) xs"
      "fst (snd (fallbackLoop tm rs xs (pairs, ids, avail))) = ids \<union> set (map (\<lambda>pr. exp_id (p_bank pr)) np)"
      "\<forall>pr \<in> set np. p_receipt pr \<in> set avail \<and> \<not> isAnchor (p_receipt pr)"
      by blast
    then show ?thesis using None
      by (intro exI[of _ np]) (simp add: list_emb_Cons)
  next
    case (Some r)
    let ?pr = "\<lparr>p_bank = x, p_receipt = r,
                        p_label = Some ''AUTO-VERIFIED (Forensic Match)'',
                        p_summary = Some (''Verified via '' @ [CHR 0xC2, CHR 0xB1] @ ''3 day clearance window heuristic match.'')\<rparr>"
    from Some have rin: "r \<in> set avail" and ra: "autoMatch tm rs x r"
      by (auto simp: find_Some_iff)
    from ra have nr: "\<not> isAnchor r" by (simp add: autoMatch_def Let_def)
    from Cons.IH[of "pairs @ [?pr]" "insert (exp_id x) ids" "remove1 r avail"] obtain np where
      a: "fst (fallbackLoop tm rs xs (pairs @ [?pr], insert (exp_id x) ids, remove1 r avail)) = (pairs @ [?pr]) @ np"
      and b: "subseq (map p_bank np) xs"
      and c: "fst (snd (fallbackLoop tm rs xs (pairs @ [?pr], insert (exp_id x) ids, remove1 r avail)))
           = insert (exp_id x) ids \<union> set (map (\<lambda>pr. exp_id (p_bank pr)) np)"
      and d: "\<forall>pr \<in> set np. p_receipt pr \<in> set (remove1 r avail) \<and> \<not> isAnchor (p_receipt pr)"
      by blast
    have d': "\<forall>pr \<in> set (?pr # np). p_receipt pr \<in> set avail \<and> \<not> isAnchor (p_receipt pr)"
      using d rin nr set_remove1_subset[of r avail] by auto
    show ?thesis
      apply (rule exI[of _ "?pr # np"])
      using Some a b c d' by simp
  qed
qed

lemma subseq_subset:
  assumes "subseq xs ys"
  shows "set xs \<subseteq> set ys"
proof -
  from assms obtain N where "xs = nths ys N"
    by (auto simp: subseq_conv_nths)
  then show ?thesis
    by (auto dest: in_set_nthsD)
qed

lemma subseq_distinct_set:
  assumes "subseq xs ys" and "distinct ys"
  shows "distinct xs \<and> set xs \<subseteq> set ys"
proof -
  from assms(1) obtain N where "xs = nths ys N"
    by (auto simp: subseq_conv_nths)
  then show ?thesis
    using assms(2) by (auto intro: distinct_nthsI dest: in_set_nthsD)
qed

lemma mset_filter_disj:
  "mset (filter (\<lambda>x. P x \<or> Q x) xs) = mset (filter P xs) + mset (filter (\<lambda>x. \<not> P x \<and> Q x) xs)"
  by (induction xs) auto

lemma distinct_ids_eq:
  "distinct (map exp_id ex) \<Longrightarrow> a \<in> set ex \<Longrightarrow> b \<in> set ex \<Longrightarrow> exp_id a = exp_id b \<Longrightarrow> a = b"
  by (meson distinct_map inj_onD)

lemma mset_eq_of_distinct_set:
  "distinct xs \<Longrightarrow> distinct ys \<Longrightarrow> set xs = set ys \<Longrightarrow> mset xs = mset ys"
  by (simp add: set_eq_iff_mset_eq_distinct)

lemma matched_anchor_banks:
  assumes dex: "distinct (map exp_id ex)"
    and dms: "distinct (map bankId (filter (\<lambda>m. truthy (bankId m)) ms))"
    and F: "fallbackPass tm rs (allAnchorsInPeriod p auditBank ex) ex (advisoryPairs tm rs p auditBank ex ms) = (mp, ids, av)"
  shows "mset (filter isAnchor (map p_bank mp)) = mset (filter (\<lambda>b. exp_id b \<in> ids) (allAnchorsInPeriod p auditBank ex))"
proof -
  let ?anchors = "allAnchorsInPeriod p auditBank ex"
  let ?pairs0 = "advisoryPairs tm rs p auditBank ex ms"
  let ?ids0 = "matchedBankIds0 ?pairs0"
  let ?un = "filter (\<lambda>b. exp_id b \<notin> ?ids0) ?anchors"
  let ?av0 = "filter (\<lambda>e. \<not> isAnchor e \<and> \<not> list_ex (\<lambda>pr. exp_id (p_receipt pr) = exp_id e) ?pairs0) ex"
  have F': "fallbackLoop tm rs ?un (?pairs0, ?ids0, ?av0) = (mp, ids, av)"
    using F by (simp add: fallbackPass_def Let_def)
  from fallbackLoop_result[of tm rs ?un ?pairs0 ?ids0 ?av0] F' obtain np where
    mp: "mp = ?pairs0 @ np" and sub: "subseq (map p_bank np) ?un"
    and ids: "ids = ?ids0 \<union> set (map (\<lambda>pr. exp_id (p_bank pr)) np)"
    by auto
  have dan: "distinct ?anchors"
    using dex unfolding allAnchorsInPeriod_def by (simp add: distinct_map)
  have anc_ex: "set ?anchors \<subseteq> set ex"
    unfolding allAnchorsInPeriod_def by auto
  have ids0: "?ids0 = set (map (\<lambda>pr. exp_id (p_bank pr)) ?pairs0)"
    using advisoryPairs_mem[of _ tm rs p auditBank ex ms] unfolding matchedBankIds0_def by auto
  \<comment> \<open>the advisory part\<close>
  have d0: "distinct (map p_bank ?pairs0)"
    using advisory_distinct[OF dms, of tm rs p auditBank ex] by (simp add: distinct_map inj_on_def) 
  have s0: "set (filter isAnchor (map p_bank ?pairs0)) = set (filter (\<lambda>b. exp_id b \<in> ?ids0) ?anchors)"
  proof (intro set_eqI iffI)
    fix b assume "b \<in> set (filter isAnchor (map p_bank ?pairs0))"
    then obtain pr where pr: "pr \<in> set ?pairs0" "b = p_bank pr" "isAnchor b" by auto
    from advisoryPairs_mem[OF pr(1)] pr show "b \<in> set (filter (\<lambda>b. exp_id b \<in> ?ids0) ?anchors)"
      by (auto simp: ids0 allAnchorsInPeriod_def)
  next
    fix b assume "b \<in> set (filter (\<lambda>b. exp_id b \<in> ?ids0) ?anchors)"
    then have b: "b \<in> set ?anchors" "exp_id b \<in> ?ids0" by auto
    then obtain pr where pr: "pr \<in> set ?pairs0" "exp_id (p_bank pr) = exp_id b"
      by (auto simp: ids0)
    have "p_bank pr = b"
      using distinct_ids_eq[OF dex _ _ pr(2)] advisoryPairs_mem[OF pr(1)] b(1) anc_ex by auto
    moreover have "isAnchor b" using b(1) by (simp add: allAnchorsInPeriod_def)
    ultimately show "b \<in> set (filter isAnchor (map p_bank ?pairs0))"
      using pr(1) by force
  qed
  have m0: "mset (filter isAnchor (map p_bank ?pairs0)) = mset (filter (\<lambda>b. exp_id b \<in> ?ids0) ?anchors)"
    by (rule mset_eq_of_distinct_set) (use d0 dan s0 in auto)
  \<comment> \<open>the fallback part\<close>
  have dun: "distinct ?un" using dan by simp
  have dnp: "distinct (map p_bank np)"
    using subseq_distinct_set[OF sub dun] by simp
  have np_sub: "set (map p_bank np) \<subseteq> set ?un"
    using subseq_distinct_set[OF sub dun] by simp
  have all_anchor: "filter isAnchor (map p_bank np) = map p_bank np"
    using np_sub by (auto simp: allAnchorsInPeriod_def filter_id_conv)
  have s1: "set (map p_bank np)
      = set (filter (\<lambda>b. exp_id b \<notin> ?ids0 \<and> exp_id b \<in> set (map (\<lambda>pr. exp_id (p_bank pr)) np)) ?anchors)"
  proof (intro set_eqI iffI)
    fix b assume "b \<in> set (map p_bank np)"
    then show "b \<in> set (filter (\<lambda>b. exp_id b \<notin> ?ids0 \<and> exp_id b \<in> set (map (\<lambda>pr. exp_id (p_bank pr)) np)) ?anchors)"
      using np_sub by auto
  next
    fix b assume "b \<in> set (filter (\<lambda>b. exp_id b \<notin> ?ids0 \<and> exp_id b \<in> set (map (\<lambda>pr. exp_id (p_bank pr)) np)) ?anchors)"
    then have b: "b \<in> set ?anchors" "exp_id b \<notin> ?ids0" and "exp_id b \<in> set (map (\<lambda>pr. exp_id (p_bank pr)) np)"
      by auto
    then obtain pr where pr: "pr \<in> set np" "exp_id (p_bank pr) = exp_id b" by auto
    have "p_bank pr \<in> set ?anchors" using pr(1) np_sub by auto
    then have "p_bank pr = b"
      using distinct_ids_eq[OF dex _ _ pr(2)] b(1) anc_ex by auto
    then show "b \<in> set (map p_bank np)" using pr(1) by force
  qed
  have m1: "mset (map p_bank np)
      = mset (filter (\<lambda>b. exp_id b \<notin> ?ids0 \<and> exp_id b \<in> set (map (\<lambda>pr. exp_id (p_bank pr)) np)) ?anchors)"
    by (rule mset_eq_of_distinct_set) (use dnp dan s1 in auto)
  have split: "mset (filter (\<lambda>b. exp_id b \<in> ids) ?anchors)
      = mset (filter (\<lambda>b. exp_id b \<in> ?ids0) ?anchors)
        + mset (filter (\<lambda>b. exp_id b \<notin> ?ids0 \<and> exp_id b \<in> set (map (\<lambda>pr. exp_id (p_bank pr)) np)) ?anchors)"
    unfolding ids by (simp add: mset_filter_disj[symmetric] del: mset_filter)
  have "mset (filter isAnchor (map p_bank mp))
      = mset (filter isAnchor (map p_bank ?pairs0)) + mset (map p_bank np)"
    unfolding mp using all_anchor by simp
  then show ?thesis
    using m0 m1 split by simp
qed

lemma mset_filter_partition:
  "mset (filter P xs) + mset (filter (\<lambda>x. \<not> P x) xs) = mset xs"
  by (induction xs) auto

lemma matched_banks_in_scope:
  assumes F: "fallbackPass tm rs (allAnchorsInPeriod p auditBank ex) ex (advisoryPairs tm rs p auditBank ex ms) = (mp, ids, av)"
    and pr: "pr \<in> set mp"
  shows "p_bank pr \<in> set ex \<and> isTargetPeriod p (date (p_bank pr)) \<and> inAccount auditBank (p_bank pr)
     \<and> p_receipt pr \<in> set ex \<and> \<not> isAnchor (p_receipt pr)"
proof -
  let ?anchors = "allAnchorsInPeriod p auditBank ex"
  let ?pairs0 = "advisoryPairs tm rs p auditBank ex ms"
  let ?ids0 = "matchedBankIds0 ?pairs0"
  let ?un = "filter (\<lambda>b. exp_id b \<notin> ?ids0) ?anchors"
  let ?av0 = "filter (\<lambda>e. \<not> isAnchor e \<and> \<not> list_ex (\<lambda>pr. exp_id (p_receipt pr) = exp_id e) ?pairs0) ex"
  have F': "fallbackLoop tm rs ?un (?pairs0, ?ids0, ?av0) = (mp, ids, av)"
    using F by (simp add: fallbackPass_def Let_def)
  from fallbackLoop_result[of tm rs ?un ?pairs0 ?ids0 ?av0] F' obtain np where
    mp: "mp = ?pairs0 @ np" and sub: "subseq (map p_bank np) ?un"
    and rc: "\<forall>pr \<in> set np. p_receipt pr \<in> set ?av0 \<and> \<not> isAnchor (p_receipt pr)"
    by auto
  from pr mp consider "pr \<in> set ?pairs0" | "pr \<in> set np" by auto
  then show ?thesis
  proof cases
    case 1
    from advisoryPairs_mem[OF 1] show ?thesis by simp
  next
    case 2
    have "set (map p_bank np) \<subseteq> set ?un"
      using sub by (rule subseq_subset)
    then have "p_bank pr \<in> set ?anchors" using 2 by auto
    then show ?thesis using rc 2 by (auto simp: allAnchorsInPeriod_def)
  qed
qed

text \<open>
  C4, as stated: the matched pairs and the three missing lists partition the anchor pool of the
  period and account. The advisory pass keeps every validated proposal, so two proposals for one
  bank id put the anchor into two matched pairs.
\<close>

theorem anchor_matched_twice:
  "allAnchorsInPeriod march2025 ''All Accounts'' [anchorA, proofA, proofB] = [anchorA]
   \<and> map p_bank (matched (filteredData isoTime noRates march2025 ''All Accounts'' [anchorA, proofA, proofB]
        [validProposal, secondProposal])) = [anchorA, anchorA]"
  by code_simp

text \<open>
  C4, amended: when the expenses have pairwise distinct ids and the advisory proposals name each
  bank id at most once, the anchors among the bank sides of the matched pairs, together with the
  mandatory, optional and standard missing lists, are exactly the anchor pool of the period and
  account, each anchor once; and every bank side of a matched pair is an expense of the period
  and account.
\<close>

theorem anchor_pool_partition:
  fixes tm rs p auditBank expenses ms
  defines "out \<equiv> filteredData tm rs p auditBank expenses ms"
  assumes "distinct (map exp_id expenses)"
    and "distinct (map bankId (filter (\<lambda>m. truthy (bankId m)) ms))"
  shows "mset (filter isAnchor (map p_bank (matched out))) + mset (mandatoryMissing out)
         + mset (optionalMissing out) + mset (standardMissing out)
       = mset (allAnchorsInPeriod p auditBank expenses)
     \<and> (\<forall>pr \<in> set (matched out). p_bank pr \<in> set expenses
           \<and> isTargetPeriod p (date (p_bank pr)) \<and> inAccount auditBank (p_bank pr))"
proof -
  obtain mp ids av man std opt where
    F: "fallbackPass tm rs (allAnchorsInPeriod p auditBank expenses) expenses
        (advisoryPairs tm rs p auditBank expenses ms) = (mp, ids, av)"
    and C: "classify rs (filter (\<lambda>b. exp_id b \<notin> ids) (allAnchorsInPeriod p auditBank expenses)) = (man, std, opt)"
    and out: "out = \<lparr>matched = mp, mandatoryMissing = man, standardMissing = std, optionalMissing = opt,
        score = complianceScore (length mp) (length man) (length std),
        totalBankTx = length (allAnchorsInPeriod p auditBank expenses),
        totalVault = length (totalVaultAnchors auditBank expenses)\<rparr>"
    unfolding out_def by (rule filteredData_cases)
  have a: "mset (filter isAnchor (map p_bank mp))
      = mset (filter (\<lambda>b. exp_id b \<in> ids) (allAnchorsInPeriod p auditBank expenses))"
    using assms(2,3) F by (rule matched_anchor_banks)
  have b: "mset man + mset std + mset opt
      = mset (filter (\<lambda>b. exp_id b \<notin> ids) (allAnchorsInPeriod p auditBank expenses))"
    using C by (rule classify_mset)
  have "mset (filter isAnchor (map p_bank mp)) + mset man + mset opt + mset std
      = mset (filter isAnchor (map p_bank mp)) + (mset man + mset std + mset opt)"
    by (simp add: ac_simps)
  also have "\<dots> = mset (filter (\<lambda>b. exp_id b \<in> ids) (allAnchorsInPeriod p auditBank expenses))
        + mset (filter (\<lambda>b. exp_id b \<notin> ids) (allAnchorsInPeriod p auditBank expenses))"
    by (simp only: a b)
  also have "\<dots> = mset (allAnchorsInPeriod p auditBank expenses)"
    by (rule mset_filter_partition)
  finally have part: "mset (filter isAnchor (map p_bank mp)) + mset man + mset opt + mset std
      = mset (allAnchorsInPeriod p auditBank expenses)" .
  show ?thesis
    using part matched_banks_in_scope[OF F] by (simp add: out)
qed

theorem anchor_pool_partition_witness:
  "distinct (map exp_id [anchorA, anchorB, proofA])
   \<and> distinct (map bankId (filter (\<lambda>m. truthy (bankId m)) [validProposal]))
   \<and> mset (filter isAnchor (map p_bank (matched (filteredData isoTime noRates march2025 ''All Accounts''
          [anchorA, anchorB, proofA] [validProposal]))))
       + mset (mandatoryMissing (filteredData isoTime noRates march2025 ''All Accounts'' [anchorA, anchorB, proofA] [validProposal]))
       + mset (optionalMissing (filteredData isoTime noRates march2025 ''All Accounts'' [anchorA, anchorB, proofA] [validProposal]))
       + mset (standardMissing (filteredData isoTime noRates march2025 ''All Accounts'' [anchorA, anchorB, proofA] [validProposal]))
     = mset [anchorA, anchorB]"
proof -
  have h1: "distinct (map exp_id [anchorA, anchorB, proofA])"
    by code_simp
  have h2: "distinct (map bankId (filter (\<lambda>m. truthy (bankId m)) [validProposal]))"
    by code_simp
  have an: "allAnchorsInPeriod march2025 ''All Accounts'' [anchorA, anchorB, proofA] = [anchorA, anchorB]"
    by code_simp
  show ?thesis
    using anchor_pool_partition[OF h1 h2, of isoTime noRates march2025 "''All Accounts''"] h1 h2
    by (simp only: an)
qed

subsection \<open>Amount parity\<close>











subsection \<open>Compliance score\<close>

lemma of_nat_less_two_pow:
  fixes d :: nat
  assumes "d < 2 ^ 44"
  shows "(of_nat d :: rat) < 2 ^ 44"
proof -
  have "(of_nat d :: rat) < of_nat (2 ^ 44)" using assms by (simp only: of_nat_less_iff)
  then show ?thesis by (simp only: of_nat_power of_nat_numeral)
qed

lemma mathRound_bounds: "of_int (mathRound x) - 1 / 2 \<le> x" "x < of_int (mathRound x) + 1 / 2"
  unfolding mathRound_def by linarith+

lemma percentage_error:
  fixes m d :: nat
  assumes d: "0 < d" "d < 2 ^ 44" and m: "m \<le> d"
  shows "\<bar>roundDouble (roundDouble (of_nat m / of_nat d) * 100) - 100 * of_nat m / of_nat d\<bar>
           \<le> 201 / 2 ^ 53"
proof (cases "m = 0")
  case True
  then show ?thesis by (simp add: roundDouble_def)
next
  case False
  define q :: rat where "q = of_nat m / of_nat d"
  define u :: rat where "u = 1 / 2 ^ 53"
  have u: "2 powi (- 53) = u" by (simp add: u_def power_int_minus_divide)
  have dr: "(0::rat) < of_nat d" "(of_nat d :: rat) < 2 ^ 44"
    using d by (simp_all add: of_nat_less_two_pow)
  have "(1::rat) \<le> of_nat m" using False by simp
  then have "1 / of_nat d \<le> q" unfolding q_def using dr(1) by (intro divide_right_mono) simp_all
  moreover have "(1::rat) / 2 ^ 44 < 1 / of_nat d" using dr by (simp add: field_simps)
  ultimately have qlo: "1 / 2 ^ 44 < q" by linarith
  have "(of_nat m :: rat) \<le> of_nat d" using m by simp
  then have qhi: "q \<le> 1" unfolding q_def using dr(1) by (simp add: field_simps)
  have "(2::rat) powi (- 1022) \<le> 1 / 2 ^ 44"
    by (simp add: power_int_minus_divide field_simps)
  then have qn: "2 powi (- 1022) \<le> q" using qlo by linarith
  have e1: "\<bar>roundDouble q - q\<bar> \<le> q * u"
    using roundDouble_error[OF qn] by (simp only: u)
  have e1': "\<bar>roundDouble q - q\<bar> \<le> u"
  proof -
    have "q * u \<le> 1 * u" using qhi by (intro mult_right_mono) (simp_all add: u_def)
    then show ?thesis using e1 by simp
  qed
  define p :: rat where "p = roundDouble q * 100"
  have us: "u \<le> 1 / 2" by (simp add: u_def)
  have "q * u \<le> q * (1 / 2)" using us qlo by (intro mult_left_mono) simp_all
  then have "q / 2 \<le> roundDouble q" using e1 by (simp add: abs_le_iff)
  then have "1 / 2 ^ 45 \<le> roundDouble q" using qlo by simp
  then have plo: "100 / 2 ^ 45 \<le> p" by (simp add: p_def)
  have "(2::rat) powi (- 1022) \<le> 100 / 2 ^ 45"
    by (simp add: power_int_minus_divide field_simps)
  then have pn: "2 powi (- 1022) \<le> p" using plo by linarith
  have "roundDouble q \<le> 1 + u" using e1' qhi by (simp add: abs_le_iff)
  moreover have "u \<le> 1 / 100" by (simp add: u_def)
  ultimately have phi: "p \<le> 101" unfolding p_def by linarith
  have e2: "\<bar>roundDouble p - p\<bar> \<le> p * u"
    using roundDouble_error[OF pn] by (simp only: u)
  have "p * u \<le> 101 * u" using phi by (intro mult_right_mono) (simp_all add: u_def)
  then have e2': "\<bar>roundDouble p - p\<bar> \<le> 101 * u" using e2 by simp
  have "p - 100 * q = 100 * (roundDouble q - q)"
    by (simp add: p_def right_diff_distrib)
  then have "\<bar>p - 100 * q\<bar> = 100 * \<bar>roundDouble q - q\<bar>"
    by (simp only: abs_mult abs_numeral)
  then have e3: "\<bar>p - 100 * q\<bar> \<le> 100 * u" using e1' by simp
  have "\<bar>roundDouble p - 100 * q\<bar> \<le> 201 * u" using e2' e3 by linarith
  then show ?thesis by (simp add: p_def q_def u_def)
qed

lemma gap_above:
  fixes s :: int and m d :: nat
  assumes d: "0 < d" "d < 2 ^ 44" and gt: "of_int s + 1 / 2 < (100 * of_nat m / of_nat d :: rat)"
  shows "of_int s + 1 / 2 + 201 / 2 ^ 53 < (100 * of_nat m / of_nat d :: rat)"
proof -
  define k :: int where "k = 200 * int m - (2 * s + 1) * int d"
  have dr: "(0::rat) < of_nat d" "(of_nat d :: rat) < 2 ^ 44"
    using d by (simp_all add: of_nat_less_two_pow)
  have eq: "100 * of_nat m / of_nat d - (of_int s + 1 / 2) = (of_int k :: rat) / (2 * of_nat d)"
    using dr(1) by (simp add: k_def field_simps)
  have "0 < (of_int k :: rat) / (2 * of_nat d)" using gt eq by linarith
  then have "0 < (of_int k :: rat)" using dr(1) by (simp add: zero_less_divide_iff)
  then have "1 \<le> k" by simp
  then have k: "(1::rat) \<le> of_int k" by simp
  have "(1::rat) / (2 * of_nat d) \<le> of_int k / (2 * of_nat d)"
    using k dr(1) by (intro divide_right_mono) simp_all
  moreover have "(201::rat) / 2 ^ 53 < 1 / (2 * of_nat d)"
    using dr by (simp add: field_simps)
  ultimately show ?thesis using eq by linarith
qed

lemma gap_below:
  fixes s :: int and m d :: nat
  assumes d: "0 < d" "d < 2 ^ 44" and lt: "(100 * of_nat m / of_nat d :: rat) < of_int s - 1 / 2"
  shows "(100 * of_nat m / of_nat d :: rat) + 201 / 2 ^ 53 < of_int s - 1 / 2"
proof -
  define k :: int where "k = (2 * s - 1) * int d - 200 * int m"
  have dr: "(0::rat) < of_nat d" "(of_nat d :: rat) < 2 ^ 44"
    using d by (simp_all add: of_nat_less_two_pow)
  have eq: "(of_int s - 1 / 2) - 100 * of_nat m / of_nat d = (of_int k :: rat) / (2 * of_nat d)"
    using dr(1) by (simp add: k_def field_simps)
  have "0 < (of_int k :: rat) / (2 * of_nat d)" using lt eq by linarith
  then have "0 < (of_int k :: rat)" using dr(1) by (simp add: zero_less_divide_iff)
  then have "1 \<le> k" by simp
  then have k: "(1::rat) \<le> of_int k" by simp
  have "(1::rat) / (2 * of_nat d) \<le> of_int k / (2 * of_nat d)"
    using k dr(1) by (intro divide_right_mono) simp_all
  moreover have "(201::rat) / 2 ^ 53 < 1 / (2 * of_nat d)"
    using dr by (simp add: field_simps)
  ultimately show ?thesis using eq by linarith
qed

lemma complianceScore_nearest:
  fixes m man std :: nat
  defines "d \<equiv> m + man + std"
  assumes d: "0 < d" "d < 2 ^ 44"
  shows "\<bar>of_int (complianceScore m man std) - 100 * of_nat m / of_nat d\<bar> \<le> (1 / 2 :: rat)"
proof -
  define x :: rat where "x = roundDouble (roundDouble (of_nat m / of_nat d) * 100)"
  define t :: rat where "t = 100 * of_nat m / of_nat d"
  define s where "s = complianceScore m man std"
  have s: "s = mathRound x"
    using d(1) by (simp add: s_def complianceScore_def Let_def x_def d_def)
  have md: "m \<le> d" by (simp add: d_def)
  have err: "\<bar>x - t\<bar> \<le> 201 / 2 ^ 53"
    unfolding x_def t_def using d md by (rule percentage_error)
  have b: "of_int s - 1 / 2 \<le> x" "x < of_int s + 1 / 2"
    unfolding s by (rule mathRound_bounds)+
  have up: "t \<le> of_int s + 1 / 2"
  proof (rule ccontr)
    assume "\<not> t \<le> of_int s + 1 / 2"
    then have "of_int s + 1 / 2 < (100 * of_nat m / of_nat d :: rat)" by (simp add: t_def)
    from gap_above[OF d this] have "of_int s + 1 / 2 + 201 / 2 ^ 53 < t" by (simp add: t_def)
    then show False using err b(2) by (simp add: abs_le_iff)
  qed
  have lo: "of_int s - 1 / 2 \<le> t"
  proof (rule ccontr)
    assume "\<not> of_int s - 1 / 2 \<le> t"
    then have "(100 * of_nat m / of_nat d :: rat) < of_int s - 1 / 2" by (simp add: t_def)
    from gap_below[OF d this] have "t + 201 / 2 ^ 53 < of_int s - 1 / 2" by (simp add: t_def)
    then show False using err b(1) by (simp add: abs_le_iff)
  qed
  have "\<bar>of_int s - t\<bar> \<le> 1 / 2" using up lo by linarith
  then show ?thesis by (simp only: s_def t_def)
qed

lemma nearest_cases:
  assumes "\<bar>of_int s - t\<bar> \<le> (1 / 2 :: rat)"
  shows "s = mathRound t \<or> (s = mathRound t - 1 \<and> t = of_int s + 1 / 2)"
proof (cases "t = of_int s + 1 / 2")
  case True
  then have "mathRound t = s + 1" by (simp add: mathRound_def)
  then show ?thesis using True by simp
next
  case False
  then have "of_int s \<le> t + 1 / 2" "t + 1 / 2 < of_int s + 1" using assms by linarith+
  then have "mathRound t = s" unfolding mathRound_def by linarith
  then show ?thesis by simp
qed

text \<open>
  C3, as stated: the score is \<open>round(100 * matched / denominator)\<close>. With 23 anchors matched
  out of 40, none of them optional, the exact percentage is 57.5, which rounds to 58; the
  quotient \<open>23 / 40\<close> is not a double, the product of its double by 100 is the double just
  below 57.5, and the score is 57.
\<close>

theorem score_of_23_in_40:
  "length (matched (filteredData isoTime noRates march2025 ''All Accounts'' fortyLines [])) = 23
   \<and> length (mandatoryMissing (filteredData isoTime noRates march2025 ''All Accounts'' fortyLines [])) = 0
   \<and> length (standardMissing (filteredData isoTime noRates march2025 ''All Accounts'' fortyLines [])) = 17
   \<and> score (filteredData isoTime noRates march2025 ''All Accounts'' fortyLines []) = 57
   \<and> mathRound (100 * 23 / (23 + 0 + 17)) = 58 \<and> roundEven (100 * 23 / (23 + 0 + 17)) = 58"
proof -
  have A: "allAnchorsInPeriod march2025 ''All Accounts'' fortyLines = map cardLine [0..<40]"
    by code_simp
  have P: "advisoryPairs isoTime noRates march2025 ''All Accounts'' fortyLines [] = []"
    by (simp add: advisoryPairs_def List.map_filter_simps)
  have F: "fallbackPass isoTime noRates (map cardLine [0..<40]) fortyLines []
      = (map autoPair [0..<23], set (map (\<lambda>i. exp_id (cardLine i)) [0..<23]), [])"
    by code_simp
  have C: "classify noRates
        (filter (\<lambda>b. exp_id b \<notin> set (map (\<lambda>i. exp_id (cardLine i)) [0..<23])) (map cardLine [0..<40]))
      = ([], map cardLine [23..<40], [])"
    by code_simp
  have S: "complianceScore 23 0 17 = 57"
    by code_simp
  have R: "mathRound (100 * 23 / (23 + 0 + 17)) = 58 \<and> roundEven (100 * 23 / (23 + 0 + 17)) = 58"
    by code_simp
  have L: "length (map autoPair [0..<23]) = 23" "length ([] :: expense list) = 0"
    "length (map cardLine [23..<40]) = 17"
    by (simp_all del: upt_rec_numeral)
  have out: "filteredData isoTime noRates march2025 ''All Accounts'' fortyLines [] =
       \<lparr>matched = map autoPair [0..<23], mandatoryMissing = [], standardMissing = map cardLine [23..<40],
        optionalMissing = [], score = complianceScore 23 0 17,
        totalBankTx = length (map cardLine [0..<40]),
        totalVault = length (totalVaultAnchors ''All Accounts'' fortyLines)\<rparr>"
    unfolding filteredData_def Let_def A P F prod.case C L by (rule refl)
  show ?thesis
    using R by (simp add: out S L del: upt_rec_numeral)
qed

text \<open>
  C3, amended: the score is 100 when the denominator (matched, mandatory and standard, the
  optional list left out) is zero; otherwise it is \<open>Math.round\<close> of the double product of the
  double quotient of matched by the denominator, and 100, which is an integer nearest to
  \<open>100 * matched / denominator\<close>: the rounded exact percentage, or the integer below when the
  exact percentage lies halfway between two integers. The bound on the denominator is far above
  the length of an array.
\<close>

theorem score_nearest_percentage:
  fixes tm rs p auditBank expenses ms
  defines "out \<equiv> filteredData tm rs p auditBank expenses ms"
  defines "m \<equiv> length (matched out)"
  defines "d \<equiv> length (matched out) + length (mandatoryMissing out) + length (standardMissing out)"
  assumes small: "d < 2 ^ 44"
  shows "(d = 0 \<longrightarrow> score out = 100)
     \<and> (d \<noteq> 0 \<longrightarrow>
          score out = mathRound (roundDouble (roundDouble (of_nat m / of_nat d) * 100))
          \<and> \<bar>of_int (score out) - 100 * of_nat m / of_nat d\<bar> \<le> (1 / 2 :: rat)
          \<and> (score out = mathRound (100 * of_nat m / of_nat d)
              \<or> (score out = mathRound (100 * of_nat m / of_nat d) - 1
                  \<and> (100 * of_nat m / of_nat d :: rat) = of_int (score out) + 1 / 2)))"
proof -
  obtain mp ids av man std opt where
    out: "out = \<lparr>matched = mp, mandatoryMissing = man, standardMissing = std, optionalMissing = opt,
        score = complianceScore (length mp) (length man) (length std),
        totalBankTx = length (allAnchorsInPeriod p auditBank expenses),
        totalVault = length (totalVaultAnchors auditBank expenses)\<rparr>"
    unfolding out_def by (rule filteredData_cases)
  have sc: "score out = complianceScore (length mp) (length man) (length std)"
    and m: "m = length mp" and d: "d = length mp + length man + length std"
    by (simp_all add: out m_def d_def)
  have z: "score out = 100" if "d = 0"
    using that by (simp add: sc d complianceScore_def)
  have f: "score out = mathRound (roundDouble (roundDouble (of_nat m / of_nat d) * 100))" if "d \<noteq> 0"
    using that by (simp add: sc d m complianceScore_def Let_def)
  have n: "\<bar>of_int (score out) - 100 * of_nat m / of_nat d\<bar> \<le> (1 / 2 :: rat)" if "d \<noteq> 0"
    using complianceScore_nearest[of "length mp" "length man" "length std"] that small
    by (simp add: sc d m)
  show ?thesis
    using z f n nearest_cases[of "score out" "100 * of_nat m / of_nat d"] by blast
qed

theorem score_nearest_percentage_witness:
  "length (matched (filteredData isoTime noRates march2025 ''All Accounts'' [anchorA, anchorB, proofA] []))
     + length (mandatoryMissing (filteredData isoTime noRates march2025 ''All Accounts'' [anchorA, anchorB, proofA] []))
     + length (standardMissing (filteredData isoTime noRates march2025 ''All Accounts'' [anchorA, anchorB, proofA] [])) = 2
   \<and> (2::nat) < 2 ^ 44
   \<and> score (filteredData isoTime noRates march2025 ''All Accounts'' [anchorA, anchorB, proofA] []) = 50"
proof -
  have m: "length (matched (filteredData isoTime noRates march2025 ''All Accounts'' [anchorA, anchorB, proofA] [])) = 1"
    by code_simp
  have ma: "length (mandatoryMissing (filteredData isoTime noRates march2025 ''All Accounts'' [anchorA, anchorB, proofA] [])) = 0"
    by code_simp
  have st: "length (standardMissing (filteredData isoTime noRates march2025 ''All Accounts'' [anchorA, anchorB, proofA] [])) = 1"
    by code_simp
  have v: "mathRound (roundDouble (roundDouble (1 / 2) * 100)) = 50"
    by code_simp
  have small: "length (matched (filteredData isoTime noRates march2025 ''All Accounts'' [anchorA, anchorB, proofA] []))
     + length (mandatoryMissing (filteredData isoTime noRates march2025 ''All Accounts'' [anchorA, anchorB, proofA] []))
     + length (standardMissing (filteredData isoTime noRates march2025 ''All Accounts'' [anchorA, anchorB, proofA] [])) < 2 ^ 44"
    by (simp add: m ma st)
  show ?thesis
    using score_nearest_percentage[OF small] v by (simp add: m ma st)
qed

section \<open>Properties of the advisory matcher\<close>

text \<open>
  C9. A run of the advisory reconciliation with no anchor in its pool returns a result, with an
  empty matched list, every proof listed as unmatched and no unmatched anchor.
\<close>

theorem runReconciliationAgent_no_anchors:
  assumes "filter (\<lambda>e. role e = ''ANCHOR'') expenses = []"
  shows "runReconciliationAgent gen expenses =
     \<lparr>r_matched = [],
      unmatchedReceipts = map exp_id (filter (\<lambda>e. role e = ''PROOF'') expenses),
      unmatchedBankTransactions = []\<rparr>"
  using assms by (simp add: runReconciliationAgent_def)

theorem runReconciliationAgent_no_anchors_witness:
  "filter (\<lambda>e. role e = ''ANCHOR'') proofsOnly = []
   \<and> runReconciliationAgent failingModel proofsOnly =
       \<lparr>r_matched = [], unmatchedReceipts = [''r1'', ''r2''], unmatchedBankTransactions = []\<rparr>"
proof -
  have h: "filter (\<lambda>e. role e = ''ANCHOR'') proofsOnly = []"
    by code_simp
  have r: "map exp_id (filter (\<lambda>e. role e = ''PROOF'') proofsOnly) = [''r1'', ''r2'']"
    by code_simp
  show ?thesis
    using runReconciliationAgent_no_anchors[OF h, of failingModel] h r by simp
qed

section \<open>Properties of the travel linkage engine\<close>

subsection \<open>Day counts at ingestion\<close>

lemma msPerDay_pos: "0 < msPerDay"
  by (simp add: msPerDay_def)

text \<open>
  Between two midnights of days in the range of \<open>Date\<close> (a hundred million days on either side
  of the epoch) the difference of the time values and its quotient by the day are exact.
\<close>

lemma timeDiff_days:
  assumes "\<bar>e - s\<bar> \<le> 200000000"
  shows "timeDiff (e * msPerDay) (s * msPerDay) = of_int (e - s) * of_int msPerDay"
proof -
  have "\<bar>(e - s) * 84375\<bar> \<le> 200000000 * 84375"
    using assms by (simp add: abs_mult)
  then have n: "\<bar>(e - s) * 84375\<bar> \<le> 2 ^ 53" by simp
  have eq: "(of_int (e * msPerDay) - of_int (s * msPerDay) :: rat) = of_int ((e - s) * 84375) * 2 powi 10"
    by (simp add: msPerDay_def algebra_simps)
  have "roundDouble (of_int ((e - s) * 84375) * 2 powi 10) = of_int ((e - s) * 84375) * 2 powi 10"
    using n by (intro roundDouble_exact) simp_all
  then show ?thesis
    unfolding timeDiff_def eq by (simp add: msPerDay_def)
qed

lemma dayQuotient:
  assumes "\<bar>k\<bar> \<le> 200000000"
  shows "roundDouble (of_int k * of_int msPerDay / of_int msPerDay) = of_int k"
proof -
  have "\<bar>k\<bar> \<le> 2 ^ 53" using assms by simp
  then have "roundDouble (of_int k) = of_int k" by (rule roundDouble_of_int)
  then show ?thesis using msPerDay_pos by simp
qed

lemma calculateDuration_days:
  assumes "tm start = Some (s * msPerDay)" and "tm (orElse fin start) = Some (e * msPerDay)"
    and "\<bar>s\<bar> \<le> 100000000" and "\<bar>e\<bar> \<le> 100000000"
  shows "calculateDuration tm start fin = Some (\<bar>e - s\<bar> + 1)"
proof -
  have r: "\<bar>e - s\<bar> \<le> 200000000" using assms(3,4) by linarith
  then have r': "\<bar>\<bar>e - s\<bar>\<bar> \<le> 200000000" by simp
  have "\<bar>timeDiff (e * msPerDay) (s * msPerDay)\<bar> = of_int \<bar>e - s\<bar> * of_int msPerDay"
    using msPerDay_pos by (simp add: timeDiff_days[OF r] abs_mult)
  then have "roundDouble (\<bar>timeDiff (e * msPerDay) (s * msPerDay)\<bar> / of_int msPerDay) = of_int \<bar>e - s\<bar>"
    using dayQuotient[OF r'] by simp
  then have "\<lceil>roundDouble (\<bar>timeDiff (e * msPerDay) (s * msPerDay)\<bar> / of_int msPerDay)\<rceil> = \<bar>e - s\<bar>"
    by (simp only: ceiling_of_int)
  then show ?thesis
    using assms(1,2) by (simp add: calculateDuration_def)
qed

lemma calculateDuration_pos:
  assumes "tm start = Some ts" and "tm (orElse fin start) = Some te"
  shows "\<exists>n. calculateDuration tm start fin = Some n \<and> 1 \<le> n"
proof -
  have "0 \<le> \<bar>timeDiff te ts\<bar> / of_int msPerDay"
    using msPerDay_pos by simp
  then have "0 \<le> roundDouble (\<bar>timeDiff te ts\<bar> / of_int msPerDay)"
    by (rule roundDouble_nonneg)
  then have "0 \<le> \<lceil>roundDouble (\<bar>timeDiff te ts\<bar> / of_int msPerDay)\<rceil>"
    by simp
  then show ?thesis
    using assms by (simp add: calculateDuration_def)
qed

lemma timeDiff_exact: "\<bar>a - b\<bar> \<le> 2 ^ 53 \<Longrightarrow> timeDiff a b = of_int (a - b)"
  using roundDouble_of_int[of "a - b"] by (simp add: timeDiff_def)

text \<open>
  For a number of milliseconds up to a hundred million days, the double quotient by the day has
  the floor and the ceiling of the exact quotient.
\<close>

lemma dayQuotient_floor_ceiling:
  assumes D: "0 \<le> D" "D \<le> 100000000 * msPerDay"
  shows "\<lfloor>roundDouble (of_int D / of_int msPerDay)\<rfloor> = \<lfloor>(of_int D / of_int msPerDay :: rat)\<rfloor>"
    and "\<lceil>roundDouble (of_int D / of_int msPerDay)\<rceil> = \<lceil>(of_int D / of_int msPerDay :: rat)\<rceil>"
proof -
  define q :: rat where "q = of_int D / of_int msPerDay"
  define k where "k = \<lfloor>q\<rfloor>"
  have M: "(0::rat) < of_int msPerDay" using msPerDay_pos by simp
  have q0: "0 \<le> q" using D(1) M by (simp add: q_def)
  have "of_int D \<le> (100000000 :: rat) * of_int msPerDay"
    using D(2) by (metis of_int_le_iff of_int_mult of_int_numeral)
  then have qhi: "q \<le> 100000000" using M by (simp add: q_def pos_divide_le_eq)
  have k0: "0 \<le> k" using q0 by (simp add: k_def)
  have khi: "k \<le> 100000000" using qhi unfolding k_def by linarith
  have both: "\<lfloor>roundDouble q\<rfloor> = \<lfloor>q\<rfloor> \<and> \<lceil>roundDouble q\<rceil> = \<lceil>q\<rceil>"
  proof (cases "q = of_int k")
    case True
    have "\<bar>k\<bar> \<le> 2 ^ 53" using k0 khi by simp
    then have "roundDouble (of_int k) = of_int k" by (rule roundDouble_of_int)
    then show ?thesis using True by simp
  next
    case False
    have kq: "of_int k < q" "q < of_int k + 1"
      using False unfolding k_def by linarith+
    define r where "r = D - k * msPerDay"
    have qr: "q - of_int k = of_int r / of_int msPerDay"
      using M by (simp add: q_def r_def field_simps)
    have "0 < (of_int r :: rat) / of_int msPerDay" using kq(1) qr by linarith
    then have "0 < (of_int r :: rat)" using M by (simp add: zero_less_divide_iff)
    then have r1: "1 \<le> r" by simp
    have "(of_int r :: rat) / of_int msPerDay < 1" using kq(2) qr by linarith
    then have "(of_int r :: rat) < of_int msPerDay" using M by (simp add: pos_divide_less_eq)
    then have r2: "r \<le> msPerDay - 1" by simp
    have g: "(1::rat) / of_int msPerDay \<le> of_int r / of_int msPerDay"
      using r1 M by (intro divide_right_mono) simp_all
    have "(of_int r :: rat) \<le> of_int msPerDay - 1" using r2 by (metis of_int_le_iff of_int_diff of_int_1)
    then have "(of_int r :: rat) / of_int msPerDay \<le> (of_int msPerDay - 1) / of_int msPerDay"
      using M by (intro divide_right_mono) simp_all
    also have "\<dots> = 1 - 1 / of_int msPerDay" using M by (simp add: field_simps)
    finally have g': "(of_int r :: rat) / of_int msPerDay \<le> 1 - 1 / of_int msPerDay" .
    have small: "(100000000 :: rat) * 2 powi (- 53) < 1 / of_int msPerDay"
      by (simp add: msPerDay_def power_int_minus_divide field_simps)
    have "(1::rat) / of_int msPerDay \<le> q" using g qr kq k0 by linarith
    moreover have "(2::rat) powi (- 1022) \<le> 1 / of_int msPerDay"
      by (simp add: msPerDay_def power_int_minus_divide field_simps)
    ultimately have "2 powi (- 1022) \<le> q" by linarith
    then have "\<bar>roundDouble q - q\<bar> \<le> q * 2 powi (- 53)" by (rule roundDouble_error)
    moreover have "q * 2 powi (- 53) \<le> 100000000 * 2 powi (- 53)"
      using qhi by (intro mult_right_mono) simp_all
    ultimately have e: "\<bar>roundDouble q - q\<bar> < 1 / of_int msPerDay" using small by linarith
    have "of_int k < roundDouble q" "roundDouble q < of_int k + 1"
      using e g g' qr by linarith+
    then have "\<lfloor>roundDouble q\<rfloor> = k" "\<lceil>roundDouble q\<rceil> = k + 1"
      by linarith+
    moreover have "\<lfloor>q\<rfloor> = k" "\<lceil>q\<rceil> = k + 1" using kq by linarith+
    ultimately show ?thesis by simp
  qed
  show "\<lfloor>roundDouble (of_int D / of_int msPerDay)\<rfloor> = \<lfloor>(of_int D / of_int msPerDay :: rat)\<rfloor>"
    and "\<lceil>roundDouble (of_int D / of_int msPerDay)\<rceil> = \<lceil>(of_int D / of_int msPerDay :: rat)\<rceil>"
    using both by (simp_all add: q_def)
qed

lemma day_span_small:
  assumes "\<bar>d\<bar> \<le> 100000000 * msPerDay"
  shows "\<bar>d\<bar> \<le> 2 ^ 53"
  using assms by (simp add: msPerDay_def)

lemma calculateDuration_exact:
  assumes "tm start = Some ts" and "tm (orElse fin start) = Some te"
    and "\<bar>te - ts\<bar> \<le> 100000000 * msPerDay"
  shows "calculateDuration tm start fin = Some (\<lceil>(of_int \<bar>te - ts\<bar> / of_int msPerDay :: rat)\<rceil> + 1)"
proof -
  have "timeDiff te ts = of_int (te - ts)"
    using day_span_small[OF assms(3)] by (rule timeDiff_exact)
  then have "\<bar>timeDiff te ts\<bar> = of_int \<bar>te - ts\<bar>" by simp
  moreover have "\<lceil>roundDouble (of_int \<bar>te - ts\<bar> / of_int msPerDay)\<rceil> = \<lceil>(of_int \<bar>te - ts\<bar> / of_int msPerDay :: rat)\<rceil>"
    using assms(3) by (intro dayQuotient_floor_ceiling) simp_all
  ultimately show ?thesis
    using assms(1,2) by (simp add: calculateDuration_def)
qed

lemma ingestLoop_results:
  assumes "r \<in> set (snd (ingestLoop tm genId ex logs (st, res)))"
  shows "r \<in> set res \<or> (\<exists>lg i. lg \<in> set logs \<and> r = (newLog tm lg)\<lparr>log_id := i\<rparr>)"
  using assms
proof (induction logs arbitrary: st res)
  case Nil
  then show ?case by simp
next
  case (Cons lg rest)
  show ?case
  proof (cases "isDuplicate ex lg")
    case True
    then show ?thesis using Cons by auto
  next
    case False
    obtain i st' where a: "addDoc genId (newLog tm lg) st = (i, st')"
      by (cases "addDoc genId (newLog tm lg) st")
    from Cons.prems False a
    have "r \<in> set (snd (ingestLoop tm genId ex rest (st', res @ [(newLog tm lg)\<lparr>log_id := i\<rparr>])))"
      by simp
    from Cons.IH[OF this] show ?thesis by auto
  qed
qed

lemma newLog_days:
  "days_spent (newLog tm lg) =
     (if isHomeLocation lg \<or> travel_type lg = Accommodation \<or> truthy (return_date lg)
      then calculateDuration tm (start_date lg) (end_date lg) else Some 1)"
  by (auto simp: newLog_def Let_def)

lemma newLog_fields:
  "start_date (newLog tm lg) = start_date lg" "end_date (newLog tm lg) = end_date lg"
  "return_date (newLog tm lg) = return_date lg" "travel_type (newLog tm lg) = travel_type lg"
  "destination_city (newLog tm lg) = destination_city lg" "destination_country (newLog tm lg) = destination_country lg"
  by (simp_all add: newLog_def Let_def)

lemma isHomeLocation_cong:
  "destination_city a = destination_city b \<Longrightarrow> destination_country a = destination_country b
     \<Longrightarrow> isHomeLocation a = isHomeLocation b"
  by (simp add: isHomeLocation_def)

text \<open>
  C5, as stated: every accepted record has \<open>days_spent\<close> at least 1. Ingestion does not look at
  the dates it is given: an accommodation record whose start date is not a date is accepted, and
  its \<open>days_spent\<close> is \<open>NaN\<close>.
\<close>

theorem undated_stay_has_no_day_count:
  "isoTime ''unknown'' = None
   \<and> map travel_type (snd (addTravelLogs isoTime docIds [] [undatedStay])) = [Accommodation]
   \<and> map start_date (snd (addTravelLogs isoTime docIds [] [undatedStay])) = [''unknown'']
   \<and> map days_spent (snd (addTravelLogs isoTime docIds [] [undatedStay])) = [None]"
  by code_simp

text \<open>
  C5, amended: a record accepted by ingestion has \<open>days_spent = 1\<close> unless it is a home-bound
  arrival, an accommodation record or a round trip (a record with a return date). In those
  cases, when its start date and its end date (the start date again when there is none) are
  dates, \<open>days_spent\<close> is at least 1; when they are less than a hundred million days apart
  it is one more than the number of days between the two instants, rounded up; and when they
  are days of the calendar it is the inclusive day count between them. This holds for the records that \<open>addTravelLogs\<close> returns
  and for those of the ingestion loop over the logs in any order.
\<close>

theorem ingested_days_spent:
  assumes "r \<in> set (snd (addTravelLogs tm genId st logs))
     \<or> r \<in> set (snd (ingestLoop tm genId existingLogs sortedLogs (st, [])))"
  shows "(\<not> (isHomeLocation r \<or> travel_type r = Accommodation \<or> truthy (return_date r))
            \<longrightarrow> days_spent r = Some 1)
     \<and> (isHomeLocation r \<or> travel_type r = Accommodation \<or> truthy (return_date r) \<longrightarrow>
          (\<forall>ts te. tm (start_date r) = Some ts \<and> tm (orElse (end_date r) (start_date r)) = Some te \<longrightarrow>
             (\<exists>n. days_spent r = Some n \<and> 1 \<le> n)
             \<and> (\<bar>te - ts\<bar> \<le> 100000000 * msPerDay \<longrightarrow>
                  days_spent r = Some (\<lceil>(of_int \<bar>te - ts\<bar> / of_int msPerDay :: rat)\<rceil> + 1))
             \<and> (\<forall>s e. ts = s * msPerDay \<and> te = e * msPerDay
                     \<and> \<bar>s\<bar> \<le> 100000000 \<and> \<bar>e\<bar> \<le> 100000000
                   \<longrightarrow> days_spent r = Some (\<bar>e - s\<bar> + 1))))"
proof -
  let ?sorted = "sortBy (\<lambda>a b. laterDate tm (start_date a) (start_date b)) logs"
  from assms have "r \<in> set (snd (ingestLoop tm genId st ?sorted (st, [])))
      \<or> r \<in> set (snd (ingestLoop tm genId existingLogs sortedLogs (st, [])))"
    by (auto simp: addTravelLogs_def Let_def split: prod.splits)
  then obtain lg i where r: "r = (newLog tm lg)\<lparr>log_id := i\<rparr>"
    using ingestLoop_results[of r tm genId st ?sorted st "[]"]
      ingestLoop_results[of r tm genId existingLogs sortedLogs st "[]"] by auto
  have f: "start_date r = start_date lg" "end_date r = end_date lg" "return_date r = return_date lg"
    "travel_type r = travel_type lg" "days_spent r = days_spent (newLog tm lg)"
    by (simp_all add: r newLog_fields)
  have h: "isHomeLocation r = isHomeLocation lg"
    by (rule isHomeLocation_cong) (simp_all add: r newLog_fields)
  show ?thesis
    unfolding f h newLog_days
    using calculateDuration_days[of tm "start_date lg" _ "end_date lg"]
      calculateDuration_pos[of tm "start_date lg" _ "end_date lg"]
      calculateDuration_exact[of tm "start_date lg" _ "end_date lg"]
    by auto
qed

theorem ingested_days_spent_witness:
  "snd (addTravelLogs isoTime docIds [] [muscatStay]) = [(newLog isoTime muscatStay)\<lparr>log_id := ''doc''\<rparr>]
   \<and> travel_type ((newLog isoTime muscatStay)\<lparr>log_id := ''doc''\<rparr>) = Accommodation
   \<and> isoTime (start_date ((newLog isoTime muscatStay)\<lparr>log_id := ''doc''\<rparr>)) = Some (20094 * msPerDay)
   \<and> isoTime (orElse (end_date ((newLog isoTime muscatStay)\<lparr>log_id := ''doc''\<rparr>))
         (start_date ((newLog isoTime muscatStay)\<lparr>log_id := ''doc''\<rparr>))) = Some (20096 * msPerDay)
   \<and> days_spent ((newLog isoTime muscatStay)\<lparr>log_id := ''doc''\<rparr>) = Some 3"
proof -
  let ?r = "(newLog isoTime muscatStay)\<lparr>log_id := ''doc''\<rparr>"
  have res: "snd (addTravelLogs isoTime docIds [] [muscatStay]) = [?r]"
    by code_simp
  have mem: "?r \<in> set (snd (addTravelLogs isoTime docIds [] [muscatStay]))
      \<or> ?r \<in> set (snd (ingestLoop isoTime docIds [] [] ([], [])))"
    by (simp only: res list.set_intros simp_thms)
  have ty: "travel_type ?r = Accommodation"
    by code_simp
  have s: "isoTime (start_date ?r) = Some (20094 * msPerDay)"
    by code_simp
  have e: "isoTime (orElse (end_date ?r) (start_date ?r)) = Some (20096 * msPerDay)"
    by code_simp
  have sp: "isHomeLocation ?r \<or> travel_type ?r = Accommodation \<or> truthy (return_date ?r)"
    using ty by (rule disjI2[OF disjI1])
  have rg: "\<bar>20094 :: int\<bar> \<le> 100000000" "\<bar>20096 :: int\<bar> \<le> 100000000"
    by simp_all
  have "days_spent ?r = Some (\<bar>20096 - 20094\<bar> + 1)"
    using ingested_days_spent[OF mem] sp s e rg by blast
  then have "days_spent ?r = Some 3"
    by simp
  then show ?thesis
    using res ty s e by (simp only: simp_thms)
qed

subsection \<open>Hotel verification\<close>

lemma hotelMatches_split:
  "hotelMatches tm f h =
     (hotelMatches tm f (h\<lparr>linked_flight_id := None\<rparr>)
      \<and> (\<not> truthy (linked_flight_id h) \<or> linked_flight_id h = Some (log_id f)))"
  by (auto simp: hotelMatches_def Let_def truthy_def)

lemma hotelMatches_unlinked_cong:
  assumes "destination_city f' = destination_city f" "start_date f' = start_date f"
    "destination_city h' = destination_city h" "start_date h' = start_date h"
  shows "hotelMatches tm f' (h'\<lparr>linked_flight_id := None\<rparr>) = hotelMatches tm f (h\<lparr>linked_flight_id := None\<rparr>)"
  using assms by (simp add: hotelMatches_def Let_def)

lemma evolves_refl: "evolves tm hs d d"
  by (simp add: evolves_def)

lemma distinct_log_ids_eq:
  "distinct (map log_id st) \<Longrightarrow> a \<in> set st \<Longrightarrow> b \<in> set st \<Longrightarrow> log_id a = log_id b \<Longrightarrow> a = b"
  by (meson distinct_map inj_onD)

lemma evolves_verifyFlight:
  assumes dist: "distinct (map log_id st)" and hs: "set hs \<subseteq> set st"
    and inv: "list_all2 (evolves tm hs) st s"
  shows "list_all2 (evolves tm hs) st (verifyFlight tm hs f s)"
proof (cases "skipsFlight f")
  case True
  then show ?thesis using inv by (simp add: verifyFlight_def)
next
  case False
  show ?thesis
  proof (cases "find (hotelMatches tm f) hs")
    case None
    then show ?thesis using inv False by (simp add: verifyFlight_def)
  next
    case (Some h)
    have hin: "h \<in> set st"
      using Some hs by (auto simp: find_Some_iff)
    let ?uf = "\<lambda>d. d\<lparr>hotel_verification_status := Some Verified,
                             linked_hotel_id := Some (orElse (document_id h) (log_id h))\<rparr>"
    let ?uh = "\<lambda>d. d\<lparr>status := Complete, linked_flight_id := Some (log_id f),
                          hotel_verification_status := Some Verified\<rparr>"
    let ?g = "\<lambda>d. (if log_id (if log_id d = log_id f then ?uf d else d) = log_id h
                   then ?uh (if log_id d = log_id f then ?uf d else d)
                   else (if log_id d = log_id f then ?uf d else d))"
    have eq: "verifyFlight tm hs f s = map ?g s"
      using False Some by (simp add: verifyFlight_def setDoc_def comp_def)
    have step: "evolves tm hs d (?g d')" if "d \<in> set st" and "evolves tm hs d d'" for d d'
    proof (cases "log_id d' = log_id h")
      case True
      then have "log_id d = log_id h" using that(2) by (simp add: evolves_def)
      then have "d = h" using distinct_log_ids_eq[OF dist that(1) hin] by simp
      then show ?thesis
        using that(2) True Some by (auto simp: evolves_def verified_def)
    next
      case False
      then show ?thesis
        using that(2) by (auto simp: evolves_def verified_def)
    qed
    have len: "length st = length s"
      using inv by (rule list_all2_lengthD)
    have "evolves tm hs (st ! i) (map ?g s ! i)" if "i < length st" for i
    proof -
      have "evolves tm hs (st ! i) (s ! i)"
        using inv that by (rule list_all2_nthD)
      then have "evolves tm hs (st ! i) (?g (s ! i))"
        using that by (intro step) simp_all
      then show ?thesis
        using that len by simp
    qed
    then have "list_all2 (evolves tm hs) st (map ?g s)"
      using len by (simp add: list_all2_conv_all_nth)
    then show ?thesis by (simp only: eq)
  qed
qed

lemma evolves_fold:
  assumes "distinct (map log_id st)" and "set hs \<subseteq> set st" and "list_all2 (evolves tm hs) st s"
  shows "list_all2 (evolves tm hs) st (foldl (\<lambda>s flight. verifyFlight tm hs flight s) s fs)"
  using assms(3)
proof (induction fs arbitrary: s)
  case Nil
  then show ?case by simp
next
  case (Cons f fs)
  from evolves_verifyFlight[OF assms(1,2) Cons.prems] have "list_all2 (evolves tm hs) st (verifyFlight tm hs f s)" .
  from Cons.IH[OF this] show ?case by simp
qed

lemma setDoc_ids: "map log_id (setDoc i upd s) = map log_id s" if "\<And>d. log_id (upd d) = log_id d"
  using that by (simp add: setDoc_def)

lemma verifyFlight_keeps_verified:
  assumes "\<forall>d \<in> set s. log_id d = i \<longrightarrow> verified d"
  shows "\<forall>d \<in> set (verifyFlight tm hs f s). log_id d = i \<longrightarrow> verified d"
  using assms
  by (auto simp: verifyFlight_def setDoc_def verified_def split: option.splits if_splits)

lemma verifyFlight_verifies:
  assumes "\<not> skipsFlight f" and "find (hotelMatches tm f) hs = Some h"
  shows "\<forall>d \<in> set (verifyFlight tm hs f s). log_id d = log_id f \<longrightarrow> verified d"
  using assms
  by (auto simp: verifyFlight_def setDoc_def verified_def split: if_splits)

lemma fold_keeps_verified:
  assumes "\<forall>d \<in> set s. log_id d = i \<longrightarrow> verified d"
  shows "\<forall>d \<in> set (foldl (\<lambda>s flight. verifyFlight tm hs flight s) s fs). log_id d = i \<longrightarrow> verified d"
  using assms
proof (induction fs arbitrary: s)
  case Nil
  then show ?case by simp
next
  case (Cons g fs)
  have "\<forall>d \<in> set (verifyFlight tm hs g s). log_id d = i \<longrightarrow> verified d"
    using Cons.prems by (rule verifyFlight_keeps_verified)
  from Cons.IH[OF this] show ?case by simp
qed

lemma fold_verifies:
  assumes "f \<in> set fs" and "\<not> skipsFlight f" and "find (hotelMatches tm f) hs = Some h"
  shows "\<forall>d \<in> set (foldl (\<lambda>s flight. verifyFlight tm hs flight s) s fs). log_id d = log_id f \<longrightarrow> verified d"
  using assms(1)
proof (induction fs arbitrary: s)
  case Nil
  then show ?case by simp
next
  case (Cons g fs)
  show ?case
  proof (cases "g = f")
    case True
    have "\<forall>d \<in> set (verifyFlight tm hs f s). log_id d = log_id f \<longrightarrow> verified d"
      using assms(2,3) by (rule verifyFlight_verifies)
    from fold_keeps_verified[OF this] True show ?thesis by simp
  next
    case False
    then have "f \<in> set fs" using Cons.prems by simp
    from Cons.IH[OF this] show ?thesis by simp
  qed
qed

lemma fold_no_change:
  assumes "\<forall>f \<in> set fs. skipsFlight f \<or> find (hotelMatches tm f) hs = None"
  shows "foldl (\<lambda>s flight. verifyFlight tm hs flight s) s fs = s"
  using assms by (induction fs arbitrary: s) (auto simp: verifyFlight_def)

text \<open>
  C8. Hotel verification is idempotent: on every state of the collection, whose documents have
  pairwise distinct ids, a second pass over the result of a pass changes nothing. A flight
  verified by the first pass is skipped, and a hotel that the first pass has linked was a
  candidate only for flights it could be linked to before.
\<close>

theorem verifyHotels_idempotent:
  assumes dist: "distinct (map log_id st)"
  shows "verifyHotels tm (verifyHotels tm st st) (verifyHotels tm st st) = verifyHotels tm st st"
proof -
  let ?fs = "filter (\<lambda>l. travel_type l = Flight) st"
  let ?hs = "filter (\<lambda>l. travel_type l = Accommodation) st"
  let ?s1 = "verifyHotels tm st st"
  let ?fs1 = "filter (\<lambda>l. travel_type l = Flight) ?s1"
  let ?hs1 = "filter (\<lambda>l. travel_type l = Accommodation) ?s1"
  have s1: "?s1 = foldl (\<lambda>s flight. verifyFlight tm ?hs flight s) st ?fs"
    by (simp add: verifyHotels_def)
  have inv: "list_all2 (evolves tm ?hs) st ?s1"
    unfolding s1
    by (rule evolves_fold[OF dist]) (auto simp: list_all2_conv_all_nth evolves_refl)
  have len: "length st = length ?s1"
    using inv by (rule list_all2_lengthD)
  have quiet: "skipsFlight f1 \<or> find (hotelMatches tm f1) ?hs1 = None" if f1: "f1 \<in> set ?fs1" for f1
  proof (rule disjCI)
    assume "find (hotelMatches tm f1) ?hs1 \<noteq> None"
    then obtain h1 where h1: "h1 \<in> set ?hs1" "hotelMatches tm f1 h1"
      by (auto simp: find_None_iff)
    from f1 obtain i where i: "i < length ?s1" "?s1 ! i = f1" and tf: "travel_type f1 = Flight"
      by (auto simp: in_set_conv_nth)
    from h1(1) obtain j where j: "j < length ?s1" "?s1 ! j = h1" and th: "travel_type h1 = Accommodation"
      by (auto simp: in_set_conv_nth)
    let ?f0 = "st ! i" and ?h0 = "st ! j"
    have ef: "evolves tm ?hs ?f0 f1"
      using list_all2_nthD[OF inv, of i] i len by simp
    have eh: "evolves tm ?hs ?h0 h1"
      using list_all2_nthD[OF inv, of j] j len by simp
    have f0: "?f0 \<in> set ?fs"
      using ef tf i len by (simp add: evolves_def)
    have h0: "?h0 \<in> set ?hs"
      using eh th j len by (simp add: evolves_def)
    show "skipsFlight f1"
    proof (rule ccontr)
      assume ns1: "\<not> skipsFlight f1"
      have home: "isHomeLocation ?f0 = isHomeLocation f1"
        using ef by (intro isHomeLocation_cong) (simp_all add: evolves_def)
      have ns0: "\<not> skipsFlight ?f0"
        using ns1 ef home by (auto simp: skipsFlight_def evolves_def verified_def)
      have none0: "find (hotelMatches tm ?f0) ?hs = None"
      proof (rule ccontr)
        assume "find (hotelMatches tm ?f0) ?hs \<noteq> None"
        then obtain h where "find (hotelMatches tm ?f0) ?hs = Some h" by auto
        from fold_verifies[OF f0 ns0 this, of st] have "verified f1"
          using i ef unfolding s1[symmetric] by (auto simp: evolves_def dest: nth_mem)
        then show False using ns1 by (simp add: skipsFlight_def verified_def)
      qed
      then have nm: "\<not> hotelMatches tm ?f0 ?h0"
        using h0 by (auto simp: find_None_iff)
      have cd: "hotelMatches tm f1 (h1\<lparr>linked_flight_id := None\<rparr>) = hotelMatches tm ?f0 (?h0\<lparr>linked_flight_id := None\<rparr>)"
        using ef eh by (intro hotelMatches_unlinked_cong) (simp_all add: evolves_def)
      from h1(2) have m1: "hotelMatches tm f1 (h1\<lparr>linked_flight_id := None\<rparr>)"
        and l1: "\<not> truthy (linked_flight_id h1) \<or> linked_flight_id h1 = Some (log_id f1)"
        using hotelMatches_split[of tm f1 h1] by auto
      from nm m1 cd have l0: "truthy (linked_flight_id ?h0)" "linked_flight_id ?h0 \<noteq> Some (log_id ?f0)"
        using hotelMatches_split[of tm ?f0 ?h0] by auto
      have idf: "log_id f1 = log_id ?f0" using ef by (simp add: evolves_def)
      from eh consider "linked_flight_id h1 = linked_flight_id ?h0"
        | g where "find (hotelMatches tm g) ?hs = Some ?h0" "linked_flight_id h1 = Some (log_id g)"
        by (auto simp: evolves_def)
      then show False
      proof cases
        case 1
        then show False using l0 l1 idf by simp
      next
        case 2
        from 2(1) have "hotelMatches tm g ?h0" by (auto simp: find_Some_iff)
        then have "\<not> truthy (linked_flight_id ?h0) \<or> linked_flight_id ?h0 = Some (log_id g)"
          using hotelMatches_split[of tm g ?h0] by auto
        then have "linked_flight_id h1 = linked_flight_id ?h0" using l0 2(2) by simp
        then show False using l0 l1 idf by simp
      qed
    qed
  qed
  have "verifyHotels tm ?s1 ?s1 = foldl (\<lambda>s flight. verifyFlight tm ?hs1 flight s) ?s1 ?fs1"
    by (simp add: verifyHotels_def)
  also have "\<dots> = ?s1"
  proof (rule fold_no_change, rule ballI)
    fix f assume "f \<in> set ?fs1"
    then show "skipsFlight f \<or> find (hotelMatches tm f) ?hs1 = None" by (rule quiet)
  qed
  finally show ?thesis .
qed

theorem verifyHotels_idempotent_witness:
  "distinct (map log_id twoFlightsOneHotel)
   \<and> verifyHotels isoTime (verifyHotels isoTime twoFlightsOneHotel twoFlightsOneHotel)
         (verifyHotels isoTime twoFlightsOneHotel twoFlightsOneHotel)
       = verifyHotels isoTime twoFlightsOneHotel twoFlightsOneHotel"
proof -
  have h: "distinct (map log_id twoFlightsOneHotel)"
    by code_simp
  show ?thesis
    using verifyHotels_idempotent[OF h] h by simp
qed

text \<open>
  C10. One pass can link one hotel to two flights: the pass reads the hotels from its snapshot,
  where a hotel matched by an earlier flight is still unlinked. Two flights to Muscat on
  2025-01-05 and 2025-01-07 and one hotel stay there from 2025-01-06 end with both flights
  verified against the same hotel, and the hotel linked to the later flight.
\<close>

theorem one_hotel_verifies_two_flights:
  "verifyHotels isoTime twoFlightsOneHotel twoFlightsOneHotel =
     [muscatOutbound\<lparr>hotel_verification_status := Some Verified, linked_hotel_id := Some ''h1''\<rparr>,
      secondOutbound\<lparr>hotel_verification_status := Some Verified, linked_hotel_id := Some ''h1''\<rparr>,
      muscatHotel\<lparr>status := Complete, linked_flight_id := Some ''f3'',
        hotel_verification_status := Some Verified\<rparr>]
   \<and> log_id muscatOutbound \<noteq> log_id secondOutbound"
  by code_simp

subsection \<open>Bridging\<close>

lemma set_insertBy: "set (insertBy gt x ys) = insert x (set ys)"
  by (induction ys) auto

lemma set_sortBy: "set (sortBy gt xs) = set xs"
  unfolding sortBy_def by (induction xs) (simp_all add: set_insertBy)

lemma distinct_insertBy: "distinct (insertBy gt x ys) = (x \<notin> set ys \<and> distinct ys)"
  by (induction ys) (auto simp: set_insertBy)

lemma distinct_sortBy: "distinct xs \<Longrightarrow> distinct (sortBy gt xs)"
  unfolding sortBy_def
proof (induction xs)
  case Nil
  then show ?case by simp
next
  case (Cons x xs)
  then show ?case
    using set_sortBy[of gt xs] by (simp add: distinct_insertBy sortBy_def)
qed

lemma arrivals_props:
  "distinct (arrivals tm ws)"
  "i \<in> set (arrivals tm ws) \<Longrightarrow> i < length ws \<and> travel_type (ws ! i) = Flight \<and> isHomeLocation (ws ! i)"
  by (auto simp: arrivals_def set_sortBy intro: distinct_sortBy)

lemma openOutbounds_props:
  "distinct (openOutbounds tm ws)"
  "i \<in> set (openOutbounds tm ws) \<Longrightarrow> i < length ws \<and> status (ws ! i) = OpenAwaitingReturn \<and> \<not> isHomeLocation (ws ! i)"
  by (auto simp: openOutbounds_def set_sortBy intro: distinct_sortBy)

lemma find_rev_mem: "find P (rev xs) = Some y \<Longrightarrow> y \<in> set xs \<and> P y"
  by (auto simp: find_Some_iff) (metis nth_mem set_rev length_rev)

text \<open>What one turn of the loop does.\<close>

lemma bridgeStep_cases:
  assumes "a < length ws" and "\<forall>ob \<in> set opens. ob < length ws" and "a \<notin> set opens"
  obtains (same) "bridgeStep tm opens (ws, st) a = (ws, st)"
      "truthy (outbound_flight_id (ws ! a)) \<or> find (eligible tm ws a) (rev opens) = None"
    | (link) ob ws1 where
      "\<not> truthy (outbound_flight_id (ws ! a))" "find (eligible tm ws a) (rev opens) = Some ob"
      "ob \<in> set opens" "ob < length ws" "a \<noteq> ob" "eligible tm ws a ob"
      "bridgeStep tm opens (ws, st) a =
         (ws1,
          setDoc (log_id (ws ! a)) (\<lambda>d. d\<lparr>outbound_flight_id := Some (log_id (ws ! ob))\<rparr>)
            (setDoc (log_id (ws ! ob))
               (\<lambda>d. d\<lparr>status := Complete, return_date := Some (start_date (ws ! a)),
                       return_flight_id := Some (log_id (ws ! a)),
                       days_spent := inclusiveDays tm (start_date (ws ! ob)) (start_date (ws ! a))\<rparr>)
               st))"
      "ws1 = (ws[ob := (ws ! ob)\<lparr>return_flight_id := Some (log_id (ws ! a))\<rparr>])
               [a := (ws ! a)\<lparr>outbound_flight_id := Some (log_id (ws ! ob))\<rparr>]"
      "length ws1 = length ws"
      "ws1 ! a = (ws ! a)\<lparr>outbound_flight_id := Some (log_id (ws ! ob))\<rparr>"
      "ws1 ! ob = (ws ! ob)\<lparr>return_flight_id := Some (log_id (ws ! a))\<rparr>"
      "\<And>i. i \<noteq> a \<Longrightarrow> i \<noteq> ob \<Longrightarrow> ws1 ! i = ws ! i"
proof (cases "truthy (outbound_flight_id (ws ! a))")
  case True
  then show ?thesis by (intro same) (simp_all add: bridgeStep_def)
next
  case nl: False
  show ?thesis
  proof (cases "find (eligible tm ws a) (rev opens)")
    case None
    then show ?thesis using nl by (intro same) (simp_all add: bridgeStep_def)
  next
    case (Some ob)
    have ob: "ob \<in> set opens" and el: "eligible tm ws a ob"
      using find_rev_mem[OF Some] by simp_all
    have obl: "ob < length ws" using ob assms(2) by simp
    have neq: "a \<noteq> ob" using ob assms(3) by auto
    define ws1 where "ws1 = (ws[ob := (ws ! ob)\<lparr>return_flight_id := Some (log_id (ws ! a))\<rparr>])
               [a := (ws ! a)\<lparr>outbound_flight_id := Some (log_id (ws ! ob))\<rparr>]"
    have w: "(ws[ob := (ws ! ob)\<lparr>return_flight_id := Some (log_id (ws ! a))\<rparr>]) ! a = ws ! a"
      using neq by simp
    have step: "bridgeStep tm opens (ws, st) a =
         (ws1,
          setDoc (log_id (ws ! a)) (\<lambda>d. d\<lparr>outbound_flight_id := Some (log_id (ws ! ob))\<rparr>)
            (setDoc (log_id (ws ! ob))
               (\<lambda>d. d\<lparr>status := Complete, return_date := Some (start_date (ws ! a)),
                       return_flight_id := Some (log_id (ws ! a)),
                       days_spent := inclusiveDays tm (start_date (ws ! ob)) (start_date (ws ! a))\<rparr>)
               st))"
      using nl Some by (simp add: bridgeStep_def Let_def w ws1_def)
    have l: "length ws1 = length ws" by (simp add: ws1_def)
    have na: "ws1 ! a = (ws ! a)\<lparr>outbound_flight_id := Some (log_id (ws ! ob))\<rparr>"
      using assms(1) by (simp add: ws1_def)
    have no: "ws1 ! ob = (ws ! ob)\<lparr>return_flight_id := Some (log_id (ws ! a))\<rparr>"
      using obl neq by (simp add: ws1_def)
    have ni: "ws1 ! i = ws ! i" if "i \<noteq> a" "i \<noteq> ob" for i
      using that by (simp add: ws1_def)
    show ?thesis
      by (rule link[OF nl Some ob obl neq el step ws1_def l na no ni])
  qed
qed

lemma bridgeLoop_Nil: "bridgeLoop tm opens [] s = s"
  by (simp add: bridgeLoop_def)

lemma bridgeLoop_Cons: "bridgeLoop tm opens (a # arrs) s = bridgeLoop tm opens arrs (bridgeStep tm opens s a)"
  by (simp add: bridgeLoop_def)












text \<open>Symmetric links survive a pass.\<close>

lemma bex_set_nth: "(\<exists>x \<in> set xs. P x) = (\<exists>i < length xs. P (xs ! i))"
proof
  assume "\<exists>x \<in> set xs. P x"
  then show "\<exists>i < length xs. P (xs ! i)" by (auto simp: in_set_conv_nth)
next
  assume "\<exists>i < length xs. P (xs ! i)"
  then obtain i where "i < length xs" "P (xs ! i)" by blast
  then show "\<exists>x \<in> set xs. P x" using nth_mem by blast
qed

lemma linksSymmetric_nth:
  "linksSymmetric ws =
     ((\<forall>a < length ws. truthy (outbound_flight_id (ws ! a)) \<longrightarrow>
          (\<exists>ob < length ws. outbound_flight_id (ws ! a) = Some (log_id (ws ! ob))
               \<and> return_flight_id (ws ! ob) = Some (log_id (ws ! a))))
      \<and> (\<forall>ob < length ws. truthy (return_flight_id (ws ! ob)) \<longrightarrow>
          (\<exists>a < length ws. return_flight_id (ws ! ob) = Some (log_id (ws ! a))
               \<and> outbound_flight_id (ws ! a) = Some (log_id (ws ! ob)))))"
  by (simp only: linksSymmetric_def all_set_conv_all_nth bex_set_nth)

lemma truthy_Some: "truthy (Some v) = (v \<noteq> [])"
  by (simp add: truthy_def)

lemma bridgeStep_links:
  assumes a: "a < length ws" "a \<notin> set opens" and opens: "\<forall>ob \<in> set opens. ob < length ws"
    and sym: "linksSymmetric ws" and ids: "\<forall>i < length ws. log_id (ws ! i) \<noteq> []"
  shows "linksSymmetric (fst (bridgeStep tm opens (ws, st) a))"
    and "map log_id (fst (bridgeStep tm opens (ws, st) a)) = map log_id ws"
    and "\<forall>i < length ws.
           (truthy (outbound_flight_id (ws ! i)) \<longrightarrow>
              outbound_flight_id (fst (bridgeStep tm opens (ws, st) a) ! i) = outbound_flight_id (ws ! i))
           \<and> (truthy (return_flight_id (ws ! i)) \<longrightarrow>
              return_flight_id (fst (bridgeStep tm opens (ws, st) a) ! i) = return_flight_id (ws ! i))"
proof -
  from a(1) opens a(2)
  have "linksSymmetric (fst (bridgeStep tm opens (ws, st) a))
    \<and> map log_id (fst (bridgeStep tm opens (ws, st) a)) = map log_id ws
    \<and> (\<forall>i < length ws.
           (truthy (outbound_flight_id (ws ! i)) \<longrightarrow>
              outbound_flight_id (fst (bridgeStep tm opens (ws, st) a) ! i) = outbound_flight_id (ws ! i))
           \<and> (truthy (return_flight_id (ws ! i)) \<longrightarrow>
              return_flight_id (fst (bridgeStep tm opens (ws, st) a) ! i) = return_flight_id (ws ! i)))"
  proof (cases rule: bridgeStep_cases[where tm = tm and st = st])
    case same
    then show ?thesis using sym by simp
  next
    case (link ob ws1)
    have nl: "\<not> truthy (outbound_flight_id (ws ! a))" by (rule link(1))
    have el: "\<not> truthy (return_flight_id (ws ! ob))" using link(6) by (simp add: eligible_def)
    have id1: "log_id (ws1 ! i) = log_id (ws ! i)" for i
      by (cases "i = a"; cases "i = ob") (simp_all add: link(10,11,12))
    have out1: "outbound_flight_id (ws1 ! i) = (if i = a then Some (log_id (ws ! ob)) else outbound_flight_id (ws ! i))" for i
      by (cases "i = a"; cases "i = ob") (simp_all add: link(10,11,12))
    have ret1: "return_flight_id (ws1 ! i) = (if i = ob then Some (log_id (ws ! a)) else return_flight_id (ws ! i))" for i
      using link(5) by (cases "i = a"; cases "i = ob") (simp_all add: link(10,11,12))
    have A: "\<And>i. i < length ws \<Longrightarrow> truthy (outbound_flight_id (ws ! i)) \<Longrightarrow>
          \<exists>j < length ws. outbound_flight_id (ws ! i) = Some (log_id (ws ! j))
               \<and> return_flight_id (ws ! j) = Some (log_id (ws ! i))"
      and B: "\<And>j. j < length ws \<Longrightarrow> truthy (return_flight_id (ws ! j)) \<Longrightarrow>
          \<exists>i < length ws. return_flight_id (ws ! j) = Some (log_id (ws ! i))
               \<and> outbound_flight_id (ws ! i) = Some (log_id (ws ! j))"
      using sym unfolding linksSymmetric_nth by blast+
    have A1: "\<exists>j < length ws. outbound_flight_id (ws1 ! i) = Some (log_id (ws1 ! j))
               \<and> return_flight_id (ws1 ! j) = Some (log_id (ws1 ! i))"
      if i: "i < length ws" and t: "truthy (outbound_flight_id (ws1 ! i))" for i
    proof (cases "i = a")
      case True
      have "outbound_flight_id (ws1 ! a) = Some (log_id (ws1 ! ob))
               \<and> return_flight_id (ws1 ! ob) = Some (log_id (ws1 ! a))"
        by (simp add: out1 ret1 id1)
      then show ?thesis using True link(4) by blast
    next
      case False
      then have "truthy (outbound_flight_id (ws ! i))" using t by (simp add: out1)
      from A[OF i this] obtain j where j: "j < length ws"
        "outbound_flight_id (ws ! i) = Some (log_id (ws ! j))"
        "return_flight_id (ws ! j) = Some (log_id (ws ! i))" by blast
      have "truthy (return_flight_id (ws ! j))" using j(3) ids i by (simp add: truthy_Some)
      then have "j \<noteq> ob" using el by auto
      then have "outbound_flight_id (ws1 ! i) = Some (log_id (ws1 ! j))
               \<and> return_flight_id (ws1 ! j) = Some (log_id (ws1 ! i))"
        using False j by (simp add: out1 ret1 id1)
      then show ?thesis using j(1) by blast
    qed
    have B1: "\<exists>i < length ws. return_flight_id (ws1 ! j) = Some (log_id (ws1 ! i))
               \<and> outbound_flight_id (ws1 ! i) = Some (log_id (ws1 ! j))"
      if j: "j < length ws" and t: "truthy (return_flight_id (ws1 ! j))" for j
    proof (cases "j = ob")
      case True
      have "return_flight_id (ws1 ! ob) = Some (log_id (ws1 ! a))
               \<and> outbound_flight_id (ws1 ! a) = Some (log_id (ws1 ! ob))"
        by (simp add: out1 ret1 id1)
      then show ?thesis using True a(1) by blast
    next
      case False
      then have "truthy (return_flight_id (ws ! j))" using t by (simp add: ret1)
      from B[OF j this] obtain i where i: "i < length ws"
        "return_flight_id (ws ! j) = Some (log_id (ws ! i))"
        "outbound_flight_id (ws ! i) = Some (log_id (ws ! j))" by blast
      have "truthy (outbound_flight_id (ws ! i))" using i(3) ids j by (simp add: truthy_Some)
      then have "i \<noteq> a" using nl by auto
      then have "return_flight_id (ws1 ! j) = Some (log_id (ws1 ! i))
               \<and> outbound_flight_id (ws1 ! i) = Some (log_id (ws1 ! j))"
        using False i by (simp add: out1 ret1 id1)
      then show ?thesis using i(1) by blast
    qed
    have S: "linksSymmetric ws1"
      unfolding linksSymmetric_nth link(9) using A1 B1 by blast
    have I: "map log_id ws1 = map log_id ws"
      using link(9) id1 by (simp add: list_eq_iff_nth_eq)
    have K: "\<forall>i < length ws.
           (truthy (outbound_flight_id (ws ! i)) \<longrightarrow> outbound_flight_id (ws1 ! i) = outbound_flight_id (ws ! i))
           \<and> (truthy (return_flight_id (ws ! i)) \<longrightarrow> return_flight_id (ws1 ! i) = return_flight_id (ws ! i))"
      using nl el by (auto simp: out1 ret1)
    show ?thesis using S I K by (simp add: link(7))
  qed
  then show "linksSymmetric (fst (bridgeStep tm opens (ws, st) a))"
    and "map log_id (fst (bridgeStep tm opens (ws, st) a)) = map log_id ws"
    and "\<forall>i < length ws.
           (truthy (outbound_flight_id (ws ! i)) \<longrightarrow>
              outbound_flight_id (fst (bridgeStep tm opens (ws, st) a) ! i) = outbound_flight_id (ws ! i))
           \<and> (truthy (return_flight_id (ws ! i)) \<longrightarrow>
              return_flight_id (fst (bridgeStep tm opens (ws, st) a) ! i) = return_flight_id (ws ! i))"
    by blast+
qed

lemma bridgeLoop_links:
  assumes arrs: "\<forall>a \<in> set arrs. a < length ws \<and> a \<notin> set opens" and opens: "\<forall>ob \<in> set opens. ob < length ws"
    and sym: "linksSymmetric ws" and ids: "\<forall>i < length ws. log_id (ws ! i) \<noteq> []"
  shows "linksSymmetric (fst (bridgeLoop tm opens arrs (ws, st)))
     \<and> map log_id (fst (bridgeLoop tm opens arrs (ws, st))) = map log_id ws
     \<and> (\<forall>i < length ws.
           (truthy (outbound_flight_id (ws ! i)) \<longrightarrow>
              outbound_flight_id (fst (bridgeLoop tm opens arrs (ws, st)) ! i) = outbound_flight_id (ws ! i))
           \<and> (truthy (return_flight_id (ws ! i)) \<longrightarrow>
              return_flight_id (fst (bridgeLoop tm opens arrs (ws, st)) ! i) = return_flight_id (ws ! i)))"
  using assms
proof (induction arrs arbitrary: ws st)
  case Nil
  then show ?case by (simp add: bridgeLoop_Nil)
next
  case (Cons a arrs)
  obtain ws1 st1 where s: "bridgeStep tm opens (ws, st) a = (ws1, st1)"
    by (cases "bridgeStep tm opens (ws, st) a")
  have a: "a < length ws" "a \<notin> set opens" using Cons.prems(1) by simp_all
  from bridgeStep_links[OF a Cons.prems(2,3,4), of tm st] s
  have S: "linksSymmetric ws1" and I: "map log_id ws1 = map log_id ws"
    and K: "\<forall>i < length ws.
           (truthy (outbound_flight_id (ws ! i)) \<longrightarrow> outbound_flight_id (ws1 ! i) = outbound_flight_id (ws ! i))
           \<and> (truthy (return_flight_id (ws ! i)) \<longrightarrow> return_flight_id (ws1 ! i) = return_flight_id (ws ! i))"
    by simp_all
  have l: "length ws1 = length ws" using I by (metis length_map)
  have id1: "\<forall>i < length ws1. log_id (ws1 ! i) \<noteq> []"
  proof (intro allI impI)
    fix i assume i: "i < length ws1"
    have "log_id (ws1 ! i) = log_id (ws ! i)" using I i l by (metis nth_map)
    then show "log_id (ws1 ! i) \<noteq> []" using Cons.prems(4) i l by simp
  qed
  have r1: "\<forall>x \<in> set arrs. x < length ws1 \<and> x \<notin> set opens" using Cons.prems(1) l by simp
  have o1: "\<forall>ob \<in> set opens. ob < length ws1" using Cons.prems(2) l by simp
  from Cons.IH[OF r1 o1 S id1, of st1]
  have S2: "linksSymmetric (fst (bridgeLoop tm opens arrs (ws1, st1)))"
    and I2: "map log_id (fst (bridgeLoop tm opens arrs (ws1, st1))) = map log_id ws1"
    and K2: "\<forall>i < length ws1.
           (truthy (outbound_flight_id (ws1 ! i)) \<longrightarrow>
              outbound_flight_id (fst (bridgeLoop tm opens arrs (ws1, st1)) ! i) = outbound_flight_id (ws1 ! i))
           \<and> (truthy (return_flight_id (ws1 ! i)) \<longrightarrow>
              return_flight_id (fst (bridgeLoop tm opens arrs (ws1, st1)) ! i) = return_flight_id (ws1 ! i))"
    by simp_all
  have K3: "\<forall>i < length ws.
           (truthy (outbound_flight_id (ws ! i)) \<longrightarrow>
              outbound_flight_id (fst (bridgeLoop tm opens arrs (ws1, st1)) ! i) = outbound_flight_id (ws ! i))
           \<and> (truthy (return_flight_id (ws ! i)) \<longrightarrow>
              return_flight_id (fst (bridgeLoop tm opens arrs (ws1, st1)) ! i) = return_flight_id (ws ! i))"
  proof (intro allI impI conjI)
    fix i assume i: "i < length ws" and t: "truthy (outbound_flight_id (ws ! i))"
    have "outbound_flight_id (ws1 ! i) = outbound_flight_id (ws ! i)" using K i t by simp
    then show "outbound_flight_id (fst (bridgeLoop tm opens arrs (ws1, st1)) ! i) = outbound_flight_id (ws ! i)"
      using K2 i l t by simp
  next
    fix i assume i: "i < length ws" and t: "truthy (return_flight_id (ws ! i))"
    have "return_flight_id (ws1 ! i) = return_flight_id (ws ! i)" using K i t by simp
    then show "return_flight_id (fst (bridgeLoop tm opens arrs (ws1, st1)) ! i) = return_flight_id (ws ! i)"
      using K2 i l t by simp
  qed
  show ?case
    unfolding bridgeLoop_Cons s using S2 I2 I K3 by simp
qed

lemma symmetric_one_to_one:
  assumes sym: "linksSymmetric ws" and dist: "distinct (map log_id ws)"
  shows "\<forall>x \<in> set ws. \<forall>x' \<in> set ws.
           truthy (outbound_flight_id x) \<and> outbound_flight_id x = outbound_flight_id x' \<longrightarrow> x = x'"
    and "\<forall>y \<in> set ws. \<forall>y' \<in> set ws.
           truthy (return_flight_id y) \<and> return_flight_id y = return_flight_id y' \<longrightarrow> y = y'"
proof -
  have A: "\<And>x. x \<in> set ws \<Longrightarrow> truthy (outbound_flight_id x) \<Longrightarrow>
          \<exists>y \<in> set ws. outbound_flight_id x = Some (log_id y) \<and> return_flight_id y = Some (log_id x)"
    and B: "\<And>y. y \<in> set ws \<Longrightarrow> truthy (return_flight_id y) \<Longrightarrow>
          \<exists>x \<in> set ws. return_flight_id y = Some (log_id x) \<and> outbound_flight_id x = Some (log_id y)"
    using sym unfolding linksSymmetric_def by blast+
  show "\<forall>x \<in> set ws. \<forall>x' \<in> set ws.
           truthy (outbound_flight_id x) \<and> outbound_flight_id x = outbound_flight_id x' \<longrightarrow> x = x'"
  proof (intro ballI impI)
    fix x x' assume x: "x \<in> set ws" "x' \<in> set ws"
      and h: "truthy (outbound_flight_id x) \<and> outbound_flight_id x = outbound_flight_id x'"
    from A[OF x(1)] h obtain y where y: "y \<in> set ws" "outbound_flight_id x = Some (log_id y)"
      "return_flight_id y = Some (log_id x)" by blast
    from A[OF x(2)] h obtain y' where y': "y' \<in> set ws" "outbound_flight_id x' = Some (log_id y')"
      "return_flight_id y' = Some (log_id x')" by auto
    have "log_id y = log_id y'" using y(2) y'(2) h by simp
    then have "y = y'" using distinct_log_ids_eq[OF dist y(1) y'(1)] by simp
    then have "log_id x = log_id x'" using y(3) y'(3) by simp
    then show "x = x'" using distinct_log_ids_eq[OF dist x] by simp
  qed
  show "\<forall>y \<in> set ws. \<forall>y' \<in> set ws.
           truthy (return_flight_id y) \<and> return_flight_id y = return_flight_id y' \<longrightarrow> y = y'"
  proof (intro ballI impI)
    fix y y' assume y: "y \<in> set ws" "y' \<in> set ws"
      and h: "truthy (return_flight_id y) \<and> return_flight_id y = return_flight_id y'"
    from B[OF y(1)] h obtain x where x: "x \<in> set ws" "return_flight_id y = Some (log_id x)"
      "outbound_flight_id x = Some (log_id y)" by blast
    from B[OF y(2)] h obtain x' where x': "x' \<in> set ws" "return_flight_id y' = Some (log_id x')"
      "outbound_flight_id x' = Some (log_id y')" by auto
    have "log_id x = log_id x'" using x(2) x'(2) h by simp
    then have "x = x'" using distinct_log_ids_eq[OF dist x(1) x'(1)] by simp
    then have "log_id y = log_id y'" using x(3) x'(3) by simp
    then show "y = y'" using distinct_log_ids_eq[OF dist y] by simp
  qed
qed

text \<open>The store receives the links of the working set.\<close>

lemma distinct_nth_log_id:
  "distinct (map log_id ws) \<Longrightarrow> i < length ws \<Longrightarrow> j < length ws \<Longrightarrow> log_id (ws ! i) = log_id (ws ! j) \<Longrightarrow> i = j"
  by (metis distinct_conv_nth length_map nth_map)

lemma linkFields_nth:
  assumes "map linkFields st = map linkFields ws" and "i < length ws"
  shows "log_id (st ! i) = log_id (ws ! i)" "outbound_flight_id (st ! i) = outbound_flight_id (ws ! i)"
    "return_flight_id (st ! i) = return_flight_id (ws ! i)"
proof -
  have "length st = length ws" using assms(1) by (metis length_map)
  then have "linkFields (st ! i) = linkFields (ws ! i)"
    using assms by (metis nth_map)
  then show "log_id (st ! i) = log_id (ws ! i)" "outbound_flight_id (st ! i) = outbound_flight_id (ws ! i)"
    "return_flight_id (st ! i) = return_flight_id (ws ! i)"
    by (simp_all add: linkFields_def)
qed

lemma bridgeStep_sync:
  assumes sync: "map linkFields st = map linkFields ws"
    and dist: "distinct (map log_id ws)"
    and a: "a < length ws" and opens: "\<forall>ob \<in> set opens. ob < length ws"
  shows "map linkFields (snd (bridgeStep tm opens (ws, st) a)) = map linkFields (fst (bridgeStep tm opens (ws, st) a))
     \<and> map log_id (fst (bridgeStep tm opens (ws, st) a)) = map log_id ws"
proof (cases "truthy (outbound_flight_id (ws ! a))")
  case True
  then show ?thesis using sync by (simp add: bridgeStep_def)
next
  case nl: False
  show ?thesis
  proof (cases "find (eligible tm ws a) (rev opens)")
    case None
    then show ?thesis using nl sync by (simp add: bridgeStep_def)
  next
    case (Some ob)
    have ob: "ob < length ws"
      using Some opens by (auto simp: find_Some_iff) (metis nth_mem set_rev length_rev)
    have len: "length st = length ws" using sync by (metis length_map)
    define uo where "uo = (\<lambda>d :: travel_log. d\<lparr>status := Complete, return_date := Some (start_date (ws ! a)),
                                       return_flight_id := Some (log_id (ws ! a)),
                                       days_spent := inclusiveDays tm (start_date (ws ! ob)) (start_date (ws ! a))\<rparr>)"
    define ua where "ua = (\<lambda>d :: travel_log. d\<lparr>outbound_flight_id := Some (log_id (ws ! ob))\<rparr>)"
    define s1 where "s1 = setDoc (log_id (ws ! ob)) uo st"
    define st' where "st' = setDoc (log_id (ws ! a)) ua s1"
    define ws1 where "ws1 = ws[ob := (ws ! ob)\<lparr>return_flight_id := Some (log_id (ws ! a))\<rparr>]"
    define ws' where "ws' = ws1[a := (ws1 ! a)\<lparr>outbound_flight_id := Some (log_id (ws ! ob))\<rparr>]"
    have res: "bridgeStep tm opens (ws, st) a = (ws', st')"
      using nl Some by (simp add: bridgeStep_def Let_def ws'_def ws1_def st'_def s1_def uo_def ua_def)
    have uo: "log_id (uo d) = log_id d" "outbound_flight_id (uo d) = outbound_flight_id d"
      "return_flight_id (uo d) = Some (log_id (ws ! a))" for d
      by (simp_all add: uo_def)
    have ua: "log_id (ua d) = log_id d" "outbound_flight_id (ua d) = Some (log_id (ws ! ob))"
      "return_flight_id (ua d) = return_flight_id d" for d
      by (simp_all add: ua_def)
    have lens: "length st' = length ws" "length ws' = length ws" "length ws1 = length ws"
      "length s1 = length ws"
      using len by (simp_all add: st'_def s1_def ws'_def ws1_def setDoc_def)
    have pt: "linkFields (st' ! i) = linkFields (ws' ! i) \<and> log_id (ws' ! i) = log_id (ws ! i)"
      if i: "i < length ws" for i
    proof -
      have f: "log_id (st ! i) = log_id (ws ! i)" "outbound_flight_id (st ! i) = outbound_flight_id (ws ! i)"
        "return_flight_id (st ! i) = return_flight_id (ws ! i)"
        using linkFields_nth[OF sync i] by simp_all
      have eo: "(log_id (ws ! i) = log_id (ws ! ob)) = (i = ob)"
        using distinct_nth_log_id[OF dist i ob] by auto
      have ea: "(log_id (ws ! i) = log_id (ws ! a)) = (i = a)"
        using distinct_nth_log_id[OF dist i a] by auto
      let ?d1 = "if i = ob then uo (st ! i) else st ! i"
      have "s1 ! i = (if log_id (st ! i) = log_id (ws ! ob) then uo (st ! i) else st ! i)"
        using i len by (simp add: s1_def setDoc_def)
      then have s1i: "s1 ! i = ?d1"
        using f(1) eo by simp
      have id1: "log_id (s1 ! i) = log_id (ws ! i)" using s1i f(1) uo(1) by auto
      have "st' ! i = (if log_id (s1 ! i) = log_id (ws ! a) then ua (s1 ! i) else s1 ! i)"
        using i lens by (simp add: st'_def setDoc_def)
      then have s2: "st' ! i = (if i = a then ua (s1 ! i) else s1 ! i)"
        by (simp only: id1 ea)
      have w1: "ws1 ! i = (if i = ob then (ws ! ob)\<lparr>return_flight_id := Some (log_id (ws ! a))\<rparr> else ws ! i)"
        using i by (simp add: ws1_def nth_list_update)
      have w2: "ws' ! i = (if i = a then (ws1 ! a)\<lparr>outbound_flight_id := Some (log_id (ws ! ob))\<rparr> else ws1 ! i)"
        using i lens by (simp add: ws'_def nth_list_update)
      have w1a: "ws1 ! a = (if a = ob then (ws ! ob)\<lparr>return_flight_id := Some (log_id (ws ! a))\<rparr> else ws ! a)"
        using a by (simp add: ws1_def nth_list_update)
      show ?thesis
        unfolding s2 s1i w2 w1 using f uo ua by (auto simp: linkFields_def w1a)
    qed
    have "map linkFields st' = map linkFields ws'"
      using lens pt by (simp add: list_eq_iff_nth_eq)
    moreover have "map log_id ws' = map log_id ws"
      using lens pt by (simp add: list_eq_iff_nth_eq)
    ultimately show ?thesis by (simp add: res)
  qed
qed

lemma bridge_fold_sync:
  assumes "map linkFields st = map linkFields ws" and "distinct (map log_id ws)"
    and "\<forall>a \<in> set arrs. a < length ws" and "\<forall>ob \<in> set opens. ob < length ws"
  shows "map linkFields (snd (bridgeLoop tm opens arrs (ws, st)))
     = map linkFields (fst (bridgeLoop tm opens arrs (ws, st)))"
  using assms
proof (induction arrs arbitrary: ws st)
  case Nil
  then show ?case by (simp add: bridgeLoop_Nil)
next
  case (Cons a arrs)
  obtain ws1 st1 where s: "bridgeStep tm opens (ws, st) a = (ws1, st1)"
    by (cases "bridgeStep tm opens (ws, st) a")
  have a: "a < length ws" using Cons.prems(3) by simp
  from bridgeStep_sync[where tm = tm, OF Cons.prems(1,2) a Cons.prems(4)] s
  have sy: "map linkFields st1 = map linkFields ws1" and idw: "map log_id ws1 = map log_id ws"
    by simp_all
  have l: "length ws1 = length ws" using idw by (metis length_map)
  have "map linkFields (snd (bridgeLoop tm opens arrs (ws1, st1)))
     = map linkFields (fst (bridgeLoop tm opens arrs (ws1, st1)))"
    using Cons.prems sy idw l by (intro Cons.IH) simp_all
  then show ?case using s by (simp add: bridgeLoop_Cons)
qed

lemma linksSymmetric_cong:
  assumes "map linkFields xs = map linkFields ys"
  shows "linksSymmetric xs = linksSymmetric ys"
proof -
  have len: "length xs = length ys" using assms by (metis length_map)
  have f: "log_id (xs ! i) = log_id (ys ! i)" "outbound_flight_id (xs ! i) = outbound_flight_id (ys ! i)"
    "return_flight_id (xs ! i) = return_flight_id (ys ! i)" if "i < length ys" for i
    using linkFields_nth[OF assms that] by simp_all
  show ?thesis
    unfolding linksSymmetric_nth len by (simp add: f cong: conj_cong)
qed

text \<open>
  Hotel verification writes no link between flights, so the store that the bridging of
  \<open>addTravelLogs\<close> writes to carries the links of its working set.
\<close>

lemma verifyFlight_keeps_links:
  "map linkFields (verifyFlight tm hs f st) = map linkFields st"
  by (simp add: verifyFlight_def setDoc_def linkFields_def comp_def split: option.splits)

lemma verifyHotels_keeps_links:
  "map linkFields (verifyHotels tm allLogs st) = map linkFields st"
proof -
  have "map linkFields (foldl (\<lambda>s flight. verifyFlight tm hs flight s) st fs) = map linkFields st" for hs fs
    by (induction fs arbitrary: st) (simp_all add: verifyFlight_keeps_links)
  then show ?thesis
    by (simp add: verifyHotels_def)
qed

text \<open>
  C7, as stated: over any working set, no outbound ends linked to two arrivals and the links of an
  arrival and its outbound point to each other. A pass leaves the links it finds as they are: over
  a working set in which an arrival names an outbound that does not name it back, the pass
  bridges that outbound to another arrival, and two arrivals name it.
\<close>

theorem stale_link_is_doubled:
  "distinct (map log_id staleLink) \<and> [] \<notin> set (map log_id staleLink)
   \<and> map linkFields staleLink = [(''f1'', None, None), (''f4'', Some ''f1'', None), (''f2'', None, None)]
   \<and> map linkFields (fst (bridgeFlights isoTime staleLink staleLink))
       = [(''f1'', None, Some ''f2''), (''f4'', Some ''f1'', None), (''f2'', Some ''f1'', None)]
   \<and> map linkFields (snd (bridgeFlights isoTime staleLink staleLink))
       = [(''f1'', None, Some ''f2''), (''f4'', Some ''f1'', None), (''f2'', Some ''f1'', None)]"
  by code_simp

text \<open>
  C7, amended: for every bridging pass over a working set whose records have pairwise distinct,
  non-empty ids and whose links are symmetric (the record that an outbound link names is in the
  set and names the arrival back in its return link, and conversely), the links after the pass
  are symmetric again, no two records name the same outbound and no two the same arrival, and
  every link that was set before the pass is unchanged; the store, when it starts with the links
  of the working set, ends with the links of the working set. This holds for the two lists of
  the pass in any order, \<open>bridgeFlights\<close> being the pass over the lists as \<open>sortBy\<close> orders
  them.
\<close>

theorem bridging_keeps_links_symmetric:
  fixes tm allLogs st opens arrs
  defines "ws' \<equiv> fst (bridgeLoop tm opens arrs (allLogs, st))"
  defines "st' \<equiv> snd (bridgeLoop tm opens arrs (allLogs, st))"
  assumes dist: "distinct (map log_id allLogs)" and ids: "[] \<notin> set (map log_id allLogs)"
    and sym: "linksSymmetric allLogs"
    and opens: "set opens = set (openOutbounds tm allLogs)"
    and arrs: "set arrs = set (arrivals tm allLogs)"
  shows "linksSymmetric ws'
     \<and> (\<forall>x \<in> set ws'. \<forall>x' \<in> set ws'.
           truthy (outbound_flight_id x) \<and> outbound_flight_id x = outbound_flight_id x' \<longrightarrow> x = x')
     \<and> (\<forall>y \<in> set ws'. \<forall>y' \<in> set ws'.
           truthy (return_flight_id y) \<and> return_flight_id y = return_flight_id y' \<longrightarrow> y = y')
     \<and> map log_id ws' = map log_id allLogs
     \<and> (\<forall>i < length allLogs.
           (truthy (outbound_flight_id (allLogs ! i)) \<longrightarrow>
              outbound_flight_id (ws' ! i) = outbound_flight_id (allLogs ! i))
           \<and> (truthy (return_flight_id (allLogs ! i)) \<longrightarrow>
              return_flight_id (ws' ! i) = return_flight_id (allLogs ! i)))
     \<and> (map linkFields st = map linkFields allLogs \<longrightarrow>
          map linkFields st' = map linkFields ws' \<and> linksSymmetric st')
     \<and> (opens = openOutbounds tm allLogs \<and> arrs = arrivals tm allLogs \<longrightarrow>
          bridgeFlights tm allLogs st = (ws', st'))"
proof -
  have ol: "\<forall>ob \<in> set opens. ob < length allLogs"
    using opens openOutbounds_props(2)[of _ tm allLogs] by blast
  have al: "\<forall>a \<in> set arrs. a < length allLogs \<and> a \<notin> set opens"
    using arrs opens arrivals_props(2)[of _ tm allLogs] openOutbounds_props(2)[of _ tm allLogs]
    by blast
  have ne: "\<forall>i < length allLogs. log_id (allLogs ! i) \<noteq> []"
    using ids nth_mem by force
  from bridgeLoop_links[OF al ol sym ne, of tm st]
  have S: "linksSymmetric ws'" and I: "map log_id ws' = map log_id allLogs"
    and K: "\<forall>i < length allLogs.
           (truthy (outbound_flight_id (allLogs ! i)) \<longrightarrow>
              outbound_flight_id (ws' ! i) = outbound_flight_id (allLogs ! i))
           \<and> (truthy (return_flight_id (allLogs ! i)) \<longrightarrow>
              return_flight_id (ws' ! i) = return_flight_id (allLogs ! i))"
    by (simp_all add: ws'_def)
  have d': "distinct (map log_id ws')" using dist I by simp
  have Y: "map linkFields st' = map linkFields ws' \<and> linksSymmetric st'"
    if sy: "map linkFields st = map linkFields allLogs"
  proof -
    have al': "\<forall>a \<in> set arrs. a < length allLogs" using al by simp
    have "map linkFields st' = map linkFields ws'"
      unfolding st'_def ws'_def using sy dist al' ol by (rule bridge_fold_sync)
    then show ?thesis using S linksSymmetric_cong by blast
  qed
  have Z: "bridgeFlights tm allLogs st = (ws', st')"
    if "opens = openOutbounds tm allLogs \<and> arrs = arrivals tm allLogs"
    using that by (simp add: bridgeFlights_def ws'_def st'_def)
  show ?thesis
    using S symmetric_one_to_one[OF S d'] I K Y Z by blast
qed

theorem bridging_keeps_links_symmetric_witness:
  "distinct (map log_id threeTrips) \<and> [] \<notin> set (map log_id threeTrips) \<and> linksSymmetric threeTrips
   \<and> map linkFields threeTrips
       = [(''f1'', None, None), (''f3'', None, None), (''f2'', None, None), (''f5'', None, None),
          (''f6'', None, Some ''f7''), (''f7'', Some ''f6'', None)]
   \<and> map linkFields (fst (bridgeFlights isoTime threeTrips threeTrips))
       = [(''f1'', None, Some ''f5''), (''f3'', None, Some ''f2''), (''f2'', Some ''f3'', None),
          (''f5'', Some ''f1'', None), (''f6'', None, Some ''f7''), (''f7'', Some ''f6'', None)]
   \<and> linksSymmetric (fst (bridgeFlights isoTime threeTrips threeTrips))
   \<and> map linkFields (snd (bridgeFlights isoTime threeTrips threeTrips))
       = map linkFields (fst (bridgeFlights isoTime threeTrips threeTrips))"
proof -
  have h1: "distinct (map log_id threeTrips)"
    by code_simp
  have h2: "[] \<notin> set (map log_id threeTrips)"
    by code_simp
  have h3: "linksSymmetric threeTrips"
    by code_simp
  have l0: "map linkFields threeTrips
       = [(''f1'', None, None), (''f3'', None, None), (''f2'', None, None), (''f5'', None, None),
          (''f6'', None, Some ''f7''), (''f7'', Some ''f6'', None)]"
    by code_simp
  have l1: "map linkFields (fst (bridgeFlights isoTime threeTrips threeTrips))
       = [(''f1'', None, Some ''f5''), (''f3'', None, Some ''f2''), (''f2'', Some ''f3'', None),
          (''f5'', Some ''f1'', None), (''f6'', None, Some ''f7''), (''f7'', Some ''f6'', None)]"
    by code_simp
  have t: "linksSymmetric (fst (bridgeFlights isoTime threeTrips threeTrips))
     \<and> map linkFields (snd (bridgeFlights isoTime threeTrips threeTrips))
         = map linkFields (fst (bridgeFlights isoTime threeTrips threeTrips))"
    using bridging_keeps_links_symmetric[where tm = isoTime and st = threeTrips, OF h1 h2 h3 refl refl]
    by (simp add: bridgeFlights_def)
  show ?thesis
    using h1 h2 h3 l0 l1 t by (simp only: simp_thms)
qed

end
